theory Spec2Isabelle
  imports Main "HOL-Library.Sublist"
begin

section \<open>Python strings\<close>

text \<open>
  A Python \<open>str\<close> is modelled as a \<open>string\<close> whose characters are the code points
  below 256: \<open>CHR n\<close> stands for the code point \<open>n\<close>. On this range \<open>\d\<close> is
  \<open>0\<close>..\<open>9\<close>, and \<open>str.isspace\<close> holds for the twelve characters listed in
  \<open>py_isspace\<close>. \<open>s.startswith(p)\<close> is \<open>prefix p s\<close>, \<open>s.endswith(p)\<close> is
  \<open>suffix p s\<close> and \<open>p in s\<close> is \<open>sublist p s\<close>.
\<close>

abbreviation NL :: char where
  "NL \<equiv> CHR 0x0A"

definition py_isspace :: "char \<Rightarrow> bool" where
  "py_isspace c = (c \<in> set [CHR 0x09, CHR 0x0A, CHR 0x0B, CHR 0x0C, CHR 0x0D,
                              CHR 0x1C, CHR 0x1D, CHR 0x1E, CHR 0x1F, CHR 0x20,
                              CHR 0x85, CHR 0xA0])"

text \<open>\<open>s.strip()\<close>\<close>

definition strip :: "string \<Rightarrow> string" where
  "strip s = rev (dropWhile py_isspace (rev (dropWhile py_isspace s)))"

text \<open>\<open>s.split(sep)\<close> for a one-character separator; \<open>''.split(sep)\<close> is \<open>['']\<close>.\<close>

fun split_on :: "char \<Rightarrow> string \<Rightarrow> string list" where
  "split_on sep [] = [[]]"
| "split_on sep (c # cs) =
     (if c = sep then [] # split_on sep cs
      else (case split_on sep cs of
              [] \<Rightarrow> [[c]]
            | piece # pieces \<Rightarrow> (c # piece) # pieces))"

text \<open>\<open>sep.join(parts)\<close>\<close>

fun join :: "string \<Rightarrow> string list \<Rightarrow> string" where
  "join sep [] = []"
| "join sep [p] = p"
| "join sep (p # q # ps) = p @ sep @ join sep (q # ps)"

text \<open>
  \<open>s.replace(old, new)\<close>: the occurrences of \<open>old\<close> are replaced from left to right
  without overlap; an empty \<open>old\<close> matches before every character and at the end.
\<close>

function py_replace :: "string \<Rightarrow> string \<Rightarrow> string \<Rightarrow> string" where
  "py_replace old new s =
     (if old = [] then new @ concat (map (\<lambda>c. c # new) s)
      else if s = [] then []
      else if prefix old s then new @ py_replace old new (drop (length old) s)
      else hd s # py_replace old new (tl s))"
  by pat_completeness auto
termination
  by (relation "measure (\<lambda>(old, new, s). length s)") auto

declare py_replace.simps [simp del]

text \<open>\<open>s.lower()\<close> on the code points below 256.\<close>

definition lower_char :: "char \<Rightarrow> char" where
  "lower_char c =
     (let n = (of_char c :: nat)
      in if (65 \<le> n \<and> n \<le> 90) \<or> (192 \<le> n \<and> n \<le> 222 \<and> n \<noteq> 215)
         then char_of (n + 32) else c)"

definition lower :: "string \<Rightarrow> string" where
  "lower s = map lower_char s"

section \<open>Subtitle cleaning: \<open>clean_srt_content\<close>\<close>

subsection \<open>The cue pattern\<close>

text \<open>
  The pattern of \<open>clean_srt_content\<close>, compiled with \<open>re.DOTALL\<close>, is
  \<^verbatim>\<open>(\d+)\n(TS) --> (TS)\n((?:(?!\n\n).)*?)(?=\n\n|$)\<close> where \<open>TS\<close> is
  \<^verbatim>\<open>\d{2}:\d{2}:\d{2},\d{3}\<close>. It has no look-behind, so whether it matches at a
  position depends on the rest of the content only. A cue holds the four groups.
\<close>

record cue =
  sequence :: string
  cue_start :: string
  cue_end :: string
  cue_text :: string

definition is_digit :: "char \<Rightarrow> bool" where
  "is_digit c = (c \<in> set ''0123456789'')"

datatype atom = Digit | Lit char

fun accepts :: "atom \<Rightarrow> char \<Rightarrow> bool" where
  "accepts Digit c = is_digit c"
| "accepts (Lit l) c = (c = l)"

text \<open>A fixed-length run of atoms at the head of \<open>s\<close>: the matched text and the rest.\<close>

definition match_atoms :: "atom list \<Rightarrow> string \<Rightarrow> (string \<times> string) option" where
  "match_atoms atoms s =
     (if length atoms \<le> length s \<and> list_all2 accepts atoms (take (length atoms) s)
      then Some (take (length atoms) s, drop (length atoms) s) else None)"

definition timestamp :: "atom list" where
  "timestamp = [Digit, Digit, Lit (CHR '':''), Digit, Digit, Lit (CHR '':''),
                Digit, Digit, Lit (CHR '',''), Digit, Digit, Digit]"

text \<open>
  Group 4 with its look-ahead: the lazy loop stops at the first position that is the end
  of the content, the newline that ends the content, or the start of a blank line;
  anywhere else \<^verbatim>\<open>(?!\n\n).\<close> consumes one character, whatever it is.
\<close>

fun lazy_text :: "string \<Rightarrow> string \<times> string" where
  "lazy_text [] = ([], [])"
| "lazy_text (c # cs) =
     (if c # cs = [NL] \<or> prefix [NL, NL] (c # cs) then ([], c # cs)
      else (case lazy_text cs of (t, rest) \<Rightarrow> (c # t, rest)))"

text \<open>The pattern tried at the head of \<open>s\<close>: the groups and what follows the match.\<close>

definition match_at :: "string \<Rightarrow> (cue \<times> string) option" where
  "match_at s =
     (let ds = takeWhile is_digit s
      in if ds = [] then None
         else (case dropWhile is_digit s of
                 [] \<Rightarrow> None
               | c # r1 \<Rightarrow>
                   if c \<noteq> NL then None
                   else (case match_atoms timestamp r1 of
                           None \<Rightarrow> None
                         | Some (t1, r2) \<Rightarrow>
                     (case match_atoms (map Lit '' --> '') r2 of
                           None \<Rightarrow> None
                         | Some (arrow, r3) \<Rightarrow>
                     (case match_atoms timestamp r3 of
                           None \<Rightarrow> None
                         | Some (t2, r4) \<Rightarrow>
                     (case r4 of
                           [] \<Rightarrow> None
                         | d # r5 \<Rightarrow>
                             if d \<noteq> NL then None
                             else (case lazy_text r5 of (t, rest) \<Rightarrow>
                                     Some (\<lparr>sequence = ds, cue_start = t1, cue_end = t2,
                                             cue_text = t\<rparr>, rest))))))))"

lemma lazy_text_length: "length (snd (lazy_text s)) \<le> length s"
  by (induction s rule: lazy_text.induct) (auto split: prod.splits)

lemma match_atoms_length: "match_atoms atoms s = Some (t, r) \<Longrightarrow> length r \<le> length s"
  by (auto simp: match_atoms_def split: if_splits)

lemma match_at_shorter:
  assumes "match_at s = Some (m, rest)"
  shows "length rest < length s"
proof -
  from assms obtain r1 where r1: "dropWhile is_digit s = NL # r1"
    by (auto simp: match_at_def Let_def split: if_splits list.splits)
  from assms r1 obtain t1 r2 where r2: "match_atoms timestamp r1 = Some (t1, r2)"
    by (auto simp: match_at_def Let_def split: if_splits option.splits)
  from assms r1 r2 obtain a r3 where r3: "match_atoms (map Lit '' --> '') r2 = Some (a, r3)"
    by (auto simp: match_at_def Let_def split: if_splits option.splits)
  from assms r1 r2 r3 obtain t2 r4 where r4: "match_atoms timestamp r3 = Some (t2, r4)"
    by (auto simp: match_at_def Let_def split: if_splits option.splits)
  from assms r1 r2 r3 r4 obtain r5 where r5: "r4 = NL # r5"
    by (auto simp: match_at_def Let_def split: if_splits list.splits)
  from assms r1 r2 r3 r4 r5 have "rest = snd (lazy_text r5)"
    by (auto simp: match_at_def Let_def split: if_splits prod.splits)
  then have "length rest \<le> length r5"
    by (simp add: lazy_text_length)
  moreover have "length r5 < length r1"
    using match_atoms_length [OF r2] match_atoms_length [OF r3] match_atoms_length [OF r4] r5
    by simp
  moreover have "length (dropWhile is_digit s) \<le> length s"
    by (rule length_dropWhile_le)
  ultimately show ?thesis
    using r1 by simp
qed

text \<open>
  \<open>pattern.finditer(content)\<close>: the matches from left to right, each search starting
  where the previous match ended.
\<close>

function finditer :: "string \<Rightarrow> cue list" where
  "finditer s =
     (case match_at s of
        Some (m, rest) \<Rightarrow> m # finditer rest
      | None \<Rightarrow> (case s of [] \<Rightarrow> [] | c # cs \<Rightarrow> finditer cs))"
  by pat_completeness auto
termination
  by (relation "measure length") (auto dest: match_at_shorter)

declare finditer.simps [simp del]

text \<open>
  \<^verbatim>\<open>re.sub(r'<[^>]*>', '', s)\<close>: a \<open><\<close> with a \<open>>\<close> somewhere after it is removed
  together with everything up to the first such \<open>>\<close>.
\<close>

function remove_tags :: "string \<Rightarrow> string" where
  "remove_tags [] = []"
| "remove_tags (c # cs) =
     (if c = CHR ''<'' \<and> CHR ''>'' \<in> set cs
      then remove_tags (tl (dropWhile (\<lambda>x. x \<noteq> CHR ''>'') cs))
      else c # remove_tags cs)"
  by pat_completeness auto
termination
proof (relation "measure length")
  fix c :: char and cs :: string
  have "length (dropWhile (\<lambda>x. x \<noteq> CHR ''>'') cs) \<le> length cs"
    by (rule length_dropWhile_le)
  then show "(tl (dropWhile (\<lambda>x. x \<noteq> CHR ''>'') cs), c # cs) \<in> measure length"
    by simp
qed simp_all

text \<open>The blocks: the stripped text of each cue without its tags, when not empty.\<close>

definition extract_blocks :: "string \<Rightarrow> string list" where
  "extract_blocks content =
     [text_block. m \<leftarrow> finditer content,
                  text_block \<leftarrow> [remove_tags (strip (cue_text m))], text_block \<noteq> []]"

subsection \<open>Logical deduplication\<close>

text \<open>The non-empty stripped lines of a block.\<close>

definition lines_of :: "string \<Rightarrow> string list" where
  "lines_of text = [strip l. l \<leftarrow> split_on NL text, strip l \<noteq> []]"

definition start_index :: "string list \<Rightarrow> string list \<Rightarrow> nat" where
  "start_index prev_lines curr_lines =
     (if prev_lines \<noteq> [] \<and> curr_lines \<noteq> [] then
        (if hd curr_lines = last prev_lines then 1
         else if length prev_lines < length curr_lines
                 \<and> take (length prev_lines) curr_lines = prev_lines
              then length prev_lines
         else 0)
      else 0)"

text \<open>The body of the loop over the blocks: what one block adds to \<open>cleaned_lines\<close>.\<close>

definition dedup_step :: "string \<Rightarrow> string \<Rightarrow> string list \<Rightarrow> string list" where
  "dedup_step prev_text curr_text cleaned_lines =
     (if prefix prev_text curr_text then
        (let new_part = strip (drop (length prev_text) curr_text)
         in if new_part \<noteq> [] then cleaned_lines @ [new_part] else cleaned_lines)
      else
        (let prev_lines = lines_of prev_text;
             curr_lines = lines_of curr_text;
             start_idx = start_index prev_lines curr_lines
         in cleaned_lines @ map (\<lambda>j. curr_lines ! j) [start_idx ..< length curr_lines]))"

function dedup_loop :: "string list \<Rightarrow> nat \<Rightarrow> string list \<Rightarrow> string list" where
  "dedup_loop blocks i cleaned_lines =
     (if i < length blocks
      then dedup_loop blocks (Suc i) (dedup_step (blocks ! (i - 1)) (blocks ! i) cleaned_lines)
      else cleaned_lines)"
  by pat_completeness auto
termination
  by (relation "measure (\<lambda>(blocks, i, cleaned_lines). length blocks - i)") auto

declare dedup_loop.simps [simp del]

definition deduplicate :: "string list \<Rightarrow> string list" where
  "deduplicate blocks = (if blocks \<noteq> [] then dedup_loop blocks 1 [blocks ! 0] else [])"

definition clean_srt_content :: "string \<Rightarrow> string" where
  "clean_srt_content content =
     join '' '' (deduplicate (extract_blocks (py_replace [CHR 0x0D, NL] [NL] content)))"

text \<open>What one block adds, and the start index as the specification words it.\<close>

definition new_fragments :: "string \<Rightarrow> string \<Rightarrow> string list" where
  "new_fragments prev_text curr_text = dedup_step prev_text curr_text []"

definition spec_start_index :: "string list \<Rightarrow> string list \<Rightarrow> nat" where
  "spec_start_index prev_lines curr_lines =
     (if prev_lines \<noteq> [] \<and> curr_lines \<noteq> [] \<and> last prev_lines = hd curr_lines then 1
      else if length prev_lines < length curr_lines \<and> prefix prev_lines curr_lines
           then length prev_lines
      else 0)"

text \<open>Two subtitle files with the same texts under different numbers and times.\<close>

definition srt_a :: string where
  "srt_a = ''1\<newline>00:00:00,000 --> 00:00:01,000\<newline>Hello\<newline>\<newline>2\<newline>00:00:01,000 --> 00:00:02,500\<newline>Hello world\<newline>\<newline>''"

definition srt_b :: string where
  "srt_b = ''7\<newline>01:02:03,004 --> 01:02:05,000\<newline>Hello\<newline>\<newline>9\<newline>01:02:05,000 --> 01:02:09,999\<newline><i>Hello world</i>\<newline>''"

text \<open>
  Two subtitle files whose first cue has no text line and whose second cue has the text
  \<open>Hello\<close>; they differ in the number and the times of the second cue only.
\<close>

definition srt_gap_a :: string where
  "srt_gap_a = ''1\<newline>00:00:00,000 --> 00:00:01,000\<newline>\<newline>2\<newline>00:00:01,000 --> 00:00:02,000\<newline>Hello\<newline>\<newline>''"

definition srt_gap_b :: string where
  "srt_gap_b = ''1\<newline>00:00:00,000 --> 00:00:01,000\<newline>\<newline>3\<newline>00:00:07,000 --> 00:00:08,000\<newline>Hello\<newline>\<newline>''"

section \<open>Terminology rules: \<open>enforce_terminology\<close>\<close>

text \<open>
  A rule is the dictionary built by \<open>load_rules\<close>, with its three keys. \<open>re.sub\<close>
  belongs to the standard library: it is a parameter of the model, a function of the
  pattern, the replacement and the text that either returns the new text or raises.
  Logging goes to standard output and is not part of the model.
\<close>

record rule =
  original :: string
  replacement :: string
  is_regex :: bool

datatype re_error = ReError

type_synonym regex_engine = "string \<Rightarrow> string \<Rightarrow> string \<Rightarrow> re_error + string"

text \<open>The body of the loop over the rules; \<open>except Exception\<close> keeps the text.\<close>

definition apply_rule :: "regex_engine \<Rightarrow> rule \<Rightarrow> string \<Rightarrow> string" where
  "apply_rule re_sub rule text =
     (if is_regex rule then
        (case re_sub (original rule) (replacement rule) text of
           Inr text' \<Rightarrow> text'
         | Inl e \<Rightarrow> text)
      else py_replace (original rule) (replacement rule) text)"

fun enforce_terminology :: "regex_engine \<Rightarrow> string \<Rightarrow> rule list \<Rightarrow> string" where
  "enforce_terminology re_sub text [] = text"
| "enforce_terminology re_sub text (rule # rules) =
     enforce_terminology re_sub (apply_rule re_sub rule text) rules"

section \<open>Paths and discovery\<close>

text \<open>
  \<open>os.path.basename\<close>, \<open>os.path.splitext\<close> and \<open>os.path.join\<close> as \<open>posixpath\<close>
  defines them. \<open>rfind\<close> is \<open>str.rfind\<close> for one character: the last index, or -1.
\<close>

definition rfind :: "char \<Rightarrow> string \<Rightarrow> int" where
  "rfind c s =
     (if c \<in> set s
      then int (length s) - 1 - int (length (takeWhile (\<lambda>x. x \<noteq> c) (rev s)))
      else - 1)"

definition basename :: "string \<Rightarrow> string" where
  "basename p = drop (nat (rfind (CHR ''/'') p + 1)) p"

definition splitext :: "string \<Rightarrow> string \<times> string" where
  "splitext p =
     (let sepIndex = rfind (CHR ''/'') p;
          dotIndex = rfind (CHR ''.'') p
      in if dotIndex > sepIndex
            \<and> list_ex (\<lambda>c. c \<noteq> CHR ''.'') (drop (nat (sepIndex + 1)) (take (nat dotIndex) p))
         then (take (nat dotIndex) p, drop (nat dotIndex) p)
         else (p, []))"

definition path_join :: "string \<Rightarrow> string \<Rightarrow> string" where
  "path_join a b =
     (if prefix ''/'' b then b
      else if a = [] \<or> suffix ''/'' a then a @ b
      else a @ ''/'' @ b)"

text \<open>The output path computed at the head of \<open>process_file\<close>.\<close>

definition output_path_of :: "string \<Rightarrow> string \<Rightarrow> string" where
  "output_path_of file_path output_dir =
     (let filename = basename file_path;
          name = fst (splitext filename);
          output_filename = name @ ''_rag.txt''
      in path_join output_dir output_filename)"

text \<open>The filter of \<open>main\<close> over \<open>os.listdir\<close>.\<close>

definition excluded_files :: "string list" where
  "excluded_files = [''historico.txt'', ''cookies.txt'', ''requirements.txt'', ''rules.txt'',
                     ''LICENSE'', ''README.md'']"

definition discover :: "string list \<Rightarrow> string list" where
  "discover listing =
     [f \<leftarrow> listing. (suffix ''.txt'' f \<or> suffix ''.srt'' f)
                      \<and> \<not> sublist ''_rag'' f
                      \<and> f \<notin> set excluded_files
                      \<and> \<not> prefix ''.'' f]"

text \<open>Eligibility as the specification words it: the output suffix is \<open>_rag.txt\<close>.\<close>

definition spec_eligible :: "string \<Rightarrow> bool" where
  "spec_eligible f =
     ((suffix ''.txt'' f \<or> suffix ''.srt'' f)
      \<and> f \<notin> set excluded_files
      \<and> \<not> suffix ''_rag.txt'' f
      \<and> \<not> prefix ''.'' f)"

section \<open>One job: \<open>process_with_gemini\<close> and \<open>process_file\<close>\<close>

text \<open>
  The world of a job is the file system, as a map from paths to the text of the files,
  the paths that cannot be opened for writing, and the trace of what the job did: the
  files it read, the calls of \<open>generate_content\<close> with their prompt, the sleeps and
  the files it wrote. The Gemini client is a parameter: the reply to the call number
  \<open>n\<close> (counted over the trace) with a given prompt is the text of the response
  (\<open>response.text\<close>, which may be \<open>None\<close>) or an exception with its message.
  The prompt built by \<open>get_rag_prompt\<close> from the content, the file name and the
  date is a parameter too: a function of the content and the file name.
\<close>

datatype event = Read string | Generate string | Sleep int | Write string

record world =
  files :: "string \<rightharpoonup> string"
  write_fails :: "string \<Rightarrow> bool"
  trace :: "event list"

datatype api_reply = Reply "string option" | ApiError string

type_synonym client = "nat \<Rightarrow> string \<Rightarrow> api_reply"

fun is_generate :: "event \<Rightarrow> bool" where
  "is_generate (Generate prompt) = True"
| "is_generate e = False"

fun is_write :: "event \<Rightarrow> bool" where
  "is_write (Write path) = True"
| "is_write e = False"

fun is_read :: "event \<Rightarrow> bool" where
  "is_read (Read path) = True"
| "is_read e = False"

definition calls_made :: "world \<Rightarrow> nat" where
  "calls_made w = length (filter is_generate (trace w))"

definition emit :: "event \<Rightarrow> world \<Rightarrow> world" where
  "emit e w = w\<lparr>trace := trace w @ [e]\<rparr>"

text \<open>\<open>"429" in str(e) or "quota" in str(e).lower()\<close>\<close>

definition is_rate_limited :: "string \<Rightarrow> bool" where
  "is_rate_limited e = (sublist ''429'' e \<or> sublist ''quota'' (lower e))"

text \<open>
  The loop \<open>for attempt in range(max_retries)\<close> from \<open>attempt\<close> on. The result is
  what \<open>process_with_gemini\<close> returns: the text of the response, or the empty string.
\<close>

function gemini_attempts :: "client \<Rightarrow> string \<Rightarrow> int \<Rightarrow> int \<Rightarrow> world \<Rightarrow> string option \<times> world" where
  "gemini_attempts cl prompt max_retries attempt w =
     (if attempt < max_retries then
        (let w1 = emit (Generate prompt) w
         in case cl (calls_made w) prompt of
              Reply text \<Rightarrow> (text, w1)
            | ApiError e \<Rightarrow>
                if is_rate_limited e
                then gemini_attempts cl prompt max_retries (attempt + 1)
                       (emit (Sleep ((attempt + 1) * 5)) w1)
                else if attempt = max_retries - 1 then (Some [], w1)
                else gemini_attempts cl prompt max_retries (attempt + 1) (emit (Sleep 2) w1))
      else (Some [], w))"
  by pat_completeness auto
termination
  by (relation "measure (\<lambda>(cl, prompt, max_retries, attempt, w). nat (max_retries - attempt))") auto

declare gemini_attempts.simps [simp del]

definition process_with_gemini :: "client \<Rightarrow> string \<Rightarrow> int \<Rightarrow> world \<Rightarrow> string option \<times> world" where
  "process_with_gemini cl prompt max_retries w = gemini_attempts cl prompt max_retries 0 w"

text \<open>
  How a job ends, one constructor for each \<open>return\<close> of \<open>process_file\<close> and one for
  its \<open>except\<close>: the output exists, the content is empty, the Gemini call gave nothing,
  an exception was caught, or the output was written.
\<close>

datatype outcome = Skipped | EmptyContent | Failed | Crashed | Succeeded

definition separator :: string where
  "separator = ''\<newline>\<newline>---\<newline>\<newline>## Transcri'' @ [CHR 0xE7, CHR 0xE3] @ ''o Completa Original\<newline>\<newline>''"

definition process_file ::
  "regex_engine \<Rightarrow> client \<Rightarrow> (string \<Rightarrow> string \<Rightarrow> string) \<Rightarrow>
   string \<Rightarrow> string \<Rightarrow> rule list \<Rightarrow> world \<Rightarrow> outcome \<times> world" where
  "process_file re_sub cl rag_prompt file_path output_dir rules w =
     (let filename = basename file_path;
          output_path = output_path_of file_path output_dir
      in if files w output_path \<noteq> None then (Skipped, w)
         else
          (case files w file_path of
             None \<Rightarrow> (Crashed, w)
           | Some raw \<Rightarrow>
               (let w1 = emit (Read file_path) w;
                    content = (if suffix ''.srt'' (lower filename)
                               then clean_srt_content raw else raw)
                in if strip content = [] then (EmptyContent, w1)
                   else
                    (case process_with_gemini cl (rag_prompt content filename) 3 w1 of
                       (None, w2) \<Rightarrow> (Failed, w2)
                     | (Some optimized_text, w2) \<Rightarrow>
                         if optimized_text = [] then (Failed, w2)
                         else
                          (let final_text = enforce_terminology re_sub optimized_text rules
                           in if write_fails w2 output_path then (Crashed, w2)
                              else (Succeeded,
                                    emit (Write output_path)
                                      (w2\<lparr>files := (files w2)(output_path \<mapsto>
                                              final_text @ separator @ content)\<rparr>)))))))"

text \<open>
  The jobs of a batch one after the other, in the order given, each started when the one
  before it has returned: \<open>main\<close> joins each listed name to the input directory.
  This is the run of the pool of the next section in which no two jobs overlap.
\<close>

fun run_jobs ::
  "regex_engine \<Rightarrow> client \<Rightarrow> (string \<Rightarrow> string \<Rightarrow> string) \<Rightarrow>
   string \<Rightarrow> string \<Rightarrow> rule list \<Rightarrow> string list \<Rightarrow> world \<Rightarrow> outcome list \<times> world" where
  "run_jobs re_sub cl rag_prompt dir output_dir rules [] w = ([], w)"
| "run_jobs re_sub cl rag_prompt dir output_dir rules (f # fs) w =
     (case process_file re_sub cl rag_prompt (path_join dir f) output_dir rules w of
        (r, w1) \<Rightarrow>
          (case run_jobs re_sub cl rag_prompt dir output_dir rules fs w1 of
             (rs, w2) \<Rightarrow> (r # rs, w2)))"

section \<open>The batch: the thread pool of \<open>main\<close>\<close>

text \<open>
  \<open>main\<close> submits \<open>process_file\<close> for every selected name, in the order of the
  listing, to a \<open>ThreadPoolExecutor\<close> with \<open>workers\<close> threads (3 unless told
  otherwise); the jobs share the file system and the client, and nothing locks the output
  path between the moment a job tests it and the moment the job writes it.

  A job that has been started is at one of the places where \<open>process_file\<close> looks at or
  changes what the jobs share: before the test of the output path, before the input is
  read, before the Gemini call (with the content in hand), before the output is written
  (with the generated text and the content in hand), or it has returned.
\<close>

datatype job = Pending | Started | Loaded string | Generated string string | Done outcome

text \<open>
  One step of a job: the stretch of \<open>process_file\<close> from one such place to the next.
  The four steps in a row are \<open>process_file\<close>.
\<close>

definition job_step ::
  "regex_engine \<Rightarrow> client \<Rightarrow> (string \<Rightarrow> string \<Rightarrow> string) \<Rightarrow>
   string \<Rightarrow> string \<Rightarrow> rule list \<Rightarrow> job \<Rightarrow> world \<Rightarrow> job \<times> world" where
  "job_step re_sub cl rag_prompt file_path output_dir rules j w =
     (let filename = basename file_path;
          output_path = output_path_of file_path output_dir
      in case j of
           Pending \<Rightarrow>
             if files w output_path \<noteq> None then (Done Skipped, w) else (Started, w)
         | Started \<Rightarrow>
             (case files w file_path of
                None \<Rightarrow> (Done Crashed, w)
              | Some raw \<Rightarrow>
                  (let w1 = emit (Read file_path) w;
                       content = (if suffix ''.srt'' (lower filename)
                                  then clean_srt_content raw else raw)
                   in if strip content = [] then (Done EmptyContent, w1)
                      else (Loaded content, w1)))
         | Loaded content \<Rightarrow>
             (case process_with_gemini cl (rag_prompt content filename) 3 w of
                (None, w2) \<Rightarrow> (Done Failed, w2)
              | (Some optimized_text, w2) \<Rightarrow>
                  if optimized_text = [] then (Done Failed, w2)
                  else (Generated optimized_text content, w2))
         | Generated optimized_text content \<Rightarrow>
             (let final_text = enforce_terminology re_sub optimized_text rules
              in if write_fails w output_path then (Done Crashed, w)
                 else (Done Succeeded,
                       emit (Write output_path)
                         (w\<lparr>files := (files w)(output_path \<mapsto>
                                 final_text @ separator @ content)\<rparr>)))
         | Done r \<Rightarrow> (Done r, w))"

fun job_run ::
  "regex_engine \<Rightarrow> client \<Rightarrow> (string \<Rightarrow> string \<Rightarrow> string) \<Rightarrow>
   string \<Rightarrow> string \<Rightarrow> rule list \<Rightarrow> nat \<Rightarrow> job \<Rightarrow> world \<Rightarrow> job \<times> world" where
  "job_run re_sub cl rag_prompt file_path output_dir rules 0 j w = (j, w)"
| "job_run re_sub cl rag_prompt file_path output_dir rules (Suc n) j w =
     (case job_step re_sub cl rag_prompt file_path output_dir rules j w of
        (j1, w1) \<Rightarrow> job_run re_sub cl rag_prompt file_path output_dir rules n j1 w1)"

text \<open>
  A schedule names, step by step, the job whose thread runs next. The executor starts the
  jobs in the order they were submitted and runs at most \<open>workers\<close> of them at a time:
  a waiting job may take its first step when no job before it is waiting and a worker is
  free; a started job may always go on; a job that has returned takes no step. A step that
  is not allowed changes nothing. Threads can also be switched inside a stretch; every
  schedule here is one of the runs \<open>main\<close> can have.
\<close>

fun is_running :: "job \<Rightarrow> bool" where
  "is_running Pending = False"
| "is_running (Done r) = False"
| "is_running j = True"

definition may_step :: "nat \<Rightarrow> job list \<Rightarrow> nat \<Rightarrow> bool" where
  "may_step workers jobs i =
     (i < length jobs \<and>
      (case jobs ! i of
         Pending \<Rightarrow> Pending \<notin> set (take i jobs) \<and> length (filter is_running jobs) < workers
       | Done r \<Rightarrow> False
       | _ \<Rightarrow> True))"

definition pool_step ::
  "regex_engine \<Rightarrow> client \<Rightarrow> (string \<Rightarrow> string \<Rightarrow> string) \<Rightarrow>
   nat \<Rightarrow> string \<Rightarrow> string \<Rightarrow> rule list \<Rightarrow> string list \<Rightarrow> nat \<Rightarrow>
   job list \<times> world \<Rightarrow> job list \<times> world" where
  "pool_step re_sub cl rag_prompt workers dir output_dir rules fs i st =
     (if may_step workers (fst st) i
      then (case job_step re_sub cl rag_prompt (path_join dir (fs ! i)) output_dir rules
                   (fst st ! i) (snd st) of
              (j, w) \<Rightarrow> ((fst st)[i := j], w))
      else st)"

definition run_pool ::
  "regex_engine \<Rightarrow> client \<Rightarrow> (string \<Rightarrow> string \<Rightarrow> string) \<Rightarrow>
   nat \<Rightarrow> string \<Rightarrow> string \<Rightarrow> rule list \<Rightarrow> string list \<Rightarrow> nat list \<Rightarrow>
   world \<Rightarrow> job list \<times> world" where
  "run_pool re_sub cl rag_prompt workers dir output_dir rules fs schedule w =
     fold (pool_step re_sub cl rag_prompt workers dir output_dir rules fs) schedule
       (replicate (length fs) Pending, w)"

text \<open>The schedule that runs each job to its end before the next one starts.\<close>

definition one_by_one :: "nat \<Rightarrow> nat list" where
  "one_by_one n = concat (map (replicate 4) [0 ..< n])"

text \<open>Every job that has written its output has left the file in place.\<close>

definition outputs_written :: "string \<Rightarrow> string \<Rightarrow> string list \<Rightarrow> job list \<times> world \<Rightarrow> bool" where
  "outputs_written dir output_dir fs st =
     list_all (\<lambda>i. fst st ! i = Done Succeeded \<longrightarrow>
                 files (snd st) (output_path_of (path_join dir (fs ! i)) output_dir) \<noteq> None)
       [0 ..< length (fst st)]"

section \<open>Example inputs\<close>

text \<open>
  A regex engine that rejects the pattern \<open>(\<close> and changes nothing otherwise, the two
  rules of the specification's example, and a rule with the rejected pattern.
\<close>

definition no_regex :: regex_engine where
  "no_regex pattern repl text = (if pattern = ''('' then Inl ReError else Inr text)"

definition foo_bar_baz :: "rule list" where
  "foo_bar_baz = [\<lparr>original = ''foo'', replacement = ''bar'', is_regex = False\<rparr>,
                  \<lparr>original = ''bar'', replacement = ''baz'', is_regex = False\<rparr>]"

definition bad_rule :: rule where
  "bad_rule = \<lparr>original = ''('', replacement = ''x'', is_regex = True\<rparr>"

text \<open>A directory listing.\<close>

definition listing_example :: "string list" where
  "listing_example = [''talk.srt'', ''x_rag_y.txt'', ''.hidden.txt'', ''rules.txt'',
                      ''notes.md'', ''talk_rag.txt'', ''Talk.TXT'']"

text \<open>
  Two clients: one that answers every call with a rate-limit error, one that always
  replies. A prompt builder, a subtitle file whose only cue cleans to nothing, a world
  with three input files and no output, and the same world with the output of \<open>X\<close>.
\<close>

definition always_429 :: client where
  "always_429 n prompt = ApiError ''429 RESOURCE_EXHAUSTED''"

definition echo_client :: client where
  "echo_client n prompt = Reply (Some ''# foo'')"

definition prompt_example :: "string \<Rightarrow> string \<Rightarrow> string" where
  "prompt_example content filename = filename @ [NL] @ content"

definition srt_empty :: string where
  "srt_empty = ''1\<newline>00:00:00,000 --> 00:00:01,000\<newline><i></i>\<newline>\<newline>''"

definition world_new :: world where
  "world_new = \<lparr>files = [''in/X.txt'' \<mapsto> ''some text'', ''in/X.srt'' \<mapsto> srt_a,
                          ''in/E.srt'' \<mapsto> srt_empty],
                 write_fails = (\<lambda>p. False), trace = []\<rparr>"

definition world_done :: world where
  "world_done = world_new\<lparr>files := (files world_new)(''out/X_rag.txt'' \<mapsto> ''done'')\<rparr>"

section \<open>Properties of the deduplication\<close>

lemma dedup_step_append:
  "dedup_step prev_text curr_text cleaned_lines = cleaned_lines @ new_fragments prev_text curr_text"
  by (simp add: dedup_step_def new_fragments_def Let_def)

lemma dedup_loop_concat:
  "dedup_loop blocks i cleaned_lines =
     cleaned_lines @ concat (map (\<lambda>k. new_fragments (blocks ! (k - 1)) (blocks ! k)) [i ..< length blocks])"
proof (induction blocks i cleaned_lines rule: dedup_loop.induct)
  case (1 blocks i cleaned_lines)
  show ?case
  proof (cases "i < length blocks")
    case True
    then show ?thesis
      using "1.IH" [OF True]
      by (subst dedup_loop.simps) (simp add: upt_conv_Cons dedup_step_append)
  next
    case False
    then show ?thesis by (subst dedup_loop.simps) simp
  qed
qed

lemma deduplicate_fragments:
  "deduplicate blocks =
     (if blocks = [] then []
      else blocks ! 0 # concat (map (\<lambda>i. new_fragments (blocks ! (i - 1)) (blocks ! i))
                                    [1 ..< length blocks]))"
  by (simp add: deduplicate_def dedup_loop_concat)

lemma nth_upt_drop: "map (\<lambda>j. xs ! j) [k ..< length xs] = drop k xs"
proof -
  have "drop k (map (\<lambda>j. xs ! j) [0 ..< length xs]) = map (\<lambda>j. xs ! j) [k ..< length xs]"
    by (simp add: drop_map)
  then show ?thesis
    by (simp add: map_nth)
qed

lemma dropWhile_snoc_keep: "\<not> P x \<Longrightarrow> \<exists>ys. dropWhile P (zs @ [x]) = ys @ [x]"
  by (induction zs) auto

lemma dropWhile_strip: "dropWhile py_isspace (strip s) = strip s"
proof (cases "dropWhile py_isspace s")
  case Nil
  have "strip s = rev (dropWhile py_isspace (rev []))"
    by (simp only: strip_def Nil)
  then have "strip s = []"
    by simp
  then show ?thesis
    by simp
next
  case (Cons x xs)
  from Cons [unfolded dropWhile_eq_Cons_conv] have nx: "\<not> py_isspace x"
    by (rule conjunct2)
  from nx obtain ys where ys: "dropWhile py_isspace (rev xs @ [x]) = ys @ [x]"
    using dropWhile_snoc_keep [of py_isspace x "rev xs"] by blast
  have "strip s = rev (dropWhile py_isspace (rev (x # xs)))"
    by (simp only: strip_def Cons)
  also have "rev (x # xs) = rev xs @ [x]"
    by (simp only: rev.simps)
  also have "rev (dropWhile py_isspace (rev xs @ [x])) = rev (ys @ [x])"
    by (simp only: ys)
  also have "\<dots> = x # rev ys"
    by simp
  finally have "strip s = x # rev ys" .
  then show ?thesis
    using nx by simp
qed

lemma strip_idem: "strip (strip s) = strip s"
proof -
  have "strip (strip s) = rev (dropWhile py_isspace (rev (strip s)))"
    by (simp add: strip_def [of "strip s"] dropWhile_strip)
  also have "\<dots> = strip s"
    by (simp add: strip_def)
  finally show ?thesis .
qed

lemma lines_of_trimmed: "l \<in> set (lines_of text) \<Longrightarrow> l \<noteq> [] \<and> strip l = l"
  by (auto simp: lines_of_def strip_idem)

lemma take_eq_prefix: "take (length xs) ys = xs \<longleftrightarrow> prefix xs ys"
proof
  assume h: "take (length xs) ys = xs"
  have "prefix (take (length xs) ys) ys"
    by (rule take_is_prefix)
  then show "prefix xs ys"
    by (simp only: h)
next
  assume "prefix xs ys"
  then obtain zs where "ys = xs @ zs"
    by (auto simp: prefix_def)
  then show "take (length xs) ys = xs"
    by simp
qed

lemma start_index_spec: "start_index prev_lines curr_lines = spec_start_index prev_lines curr_lines"
  by (auto simp: start_index_def spec_start_index_def take_eq_prefix)

lemma concat_map_if: "concat (map (\<lambda>l. if P l then [f l] else []) xs) = map f (filter P xs)"
  by (induction xs) simp_all

lemma lines_of_filter: "lines_of text = filter (\<lambda>l. l \<noteq> []) (map strip (split_on NL text))"
  by (simp add: lines_of_def filter_map comp_def concat_map_if)

text \<open>
  C1. When the current block starts with the text of its predecessor, the loop body adds
  exactly the rest of the current block after that prefix, stripped, and adds nothing when
  that rest is empty. The fragments of a block sequence are the first block followed by
  what each later block adds, and the blocks \<open>Hello\<close>, \<open>Hello world\<close> join to
  \<open>Hello world\<close>.
\<close>

theorem prefix_case_fragment:
  "(prefix prev_text curr_text \<longrightarrow>
      dedup_step prev_text curr_text cleaned_lines =
        (if strip (drop (length prev_text) curr_text) = [] then cleaned_lines
         else cleaned_lines @ [strip (drop (length prev_text) curr_text)]))
   \<and> (blocks \<noteq> [] \<longrightarrow>
        deduplicate blocks =
          blocks ! 0 # concat (map (\<lambda>i. dedup_step (blocks ! (i - 1)) (blocks ! i) [])
                                   [1 ..< length blocks]))
   \<and> join '' '' (deduplicate [''Hello'', ''Hello world'']) = ''Hello world''"
proof -
  have "join '' '' (deduplicate [''Hello'', ''Hello world'']) = ''Hello world''"
    by code_simp
  then show ?thesis
    by (simp add: deduplicate_fragments new_fragments_def) (simp add: dedup_step_def Let_def)
qed

theorem prefix_case_fragment_witness:
  "prefix ''Hello'' ''Hello world''
   \<and> dedup_step ''Hello'' ''Hello world'' [''Hello''] = [''Hello'', ''world'']
   \<and> prefix ''Hello'' ''Hello  ''
   \<and> dedup_step ''Hello'' ''Hello  '' [''Hello''] = [''Hello'']"
proof -
  have p1: "prefix ''Hello'' ''Hello world''" and p2: "prefix ''Hello'' ''Hello  ''"
    by simp_all
  have s1: "strip (drop (length ''Hello'') ''Hello world'') = ''world''"
    by code_simp
  have s2: "strip (drop (length ''Hello'') ''Hello  '') = []"
    by code_simp
  from prefix_case_fragment [of "''Hello''" "''Hello world''" "[''Hello'']" "[]"] p1
  have "dedup_step ''Hello'' ''Hello world'' [''Hello''] =
          (if strip (drop (length ''Hello'') ''Hello world'') = [] then [''Hello'']
           else [''Hello''] @ [strip (drop (length ''Hello'') ''Hello world'')])"
    by blast
  then have a: "dedup_step ''Hello'' ''Hello world'' [''Hello''] = [''Hello'', ''world'']"
    unfolding s1 by simp
  from prefix_case_fragment [of "''Hello''" "''Hello  ''" "[''Hello'']" "[]"] p2
  have "dedup_step ''Hello'' ''Hello  '' [''Hello''] =
          (if strip (drop (length ''Hello'') ''Hello  '') = [] then [''Hello'']
           else [''Hello''] @ [strip (drop (length ''Hello'') ''Hello  '')])"
    by blast
  then have b: "dedup_step ''Hello'' ''Hello  '' [''Hello''] = [''Hello'']"
    unfolding s2 by simp
  show ?thesis
    using p1 p2 a b by blast
qed

text \<open>
  C2. When the current block does not start with the text of its predecessor, both texts
  are split into their non-empty stripped lines, and the loop body adds the lines of the
  current block from a start index on, in order: 1 when the last line of the predecessor
  is the first line of the current block, otherwise the number of lines of the predecessor
  when it has fewer lines and they are the first lines of the current block, otherwise 0.
  For the blocks \<open>A\nB\<close>, \<open>B\nC\<close> only \<open>C\<close> is added.
\<close>

theorem line_overlap_fragments:
  "(\<not> prefix prev_text curr_text \<longrightarrow>
      dedup_step prev_text curr_text cleaned_lines =
        cleaned_lines @ drop (spec_start_index (lines_of prev_text) (lines_of curr_text))
                             (lines_of curr_text))
   \<and> lines_of text = filter (\<lambda>l. l \<noteq> []) (map strip (split_on NL text))
   \<and> (\<forall>l \<in> set (lines_of text). l \<noteq> [] \<and> strip l = l)
   \<and> dedup_step ''A\<newline>B'' ''B\<newline>C'' [''A\<newline>B''] = [''A\<newline>B'', ''C'']
   \<and> join '' '' (deduplicate [''A\<newline>B'', ''B\<newline>C'']) = ''A\<newline>B C''"
proof -
  have a: "\<not> prefix prev_text curr_text \<longrightarrow>
      dedup_step prev_text curr_text cleaned_lines =
        cleaned_lines @ drop (spec_start_index (lines_of prev_text) (lines_of curr_text))
                             (lines_of curr_text)"
    by (simp add: dedup_step_def Let_def nth_upt_drop start_index_spec)
  have b: "lines_of text = filter (\<lambda>l. l \<noteq> []) (map strip (split_on NL text))"
    by (rule lines_of_filter)
  have c: "\<forall>l \<in> set (lines_of text). l \<noteq> [] \<and> strip l = l"
    using lines_of_trimmed by blast
  have d: "dedup_step ''A\<newline>B'' ''B\<newline>C'' [''A\<newline>B''] = [''A\<newline>B'', ''C'']"
    by code_simp
  have e: "join '' '' (deduplicate [''A\<newline>B'', ''B\<newline>C'']) = ''A\<newline>B C''"
    by code_simp
  from a b c d e show ?thesis
    by blast
qed

theorem line_overlap_fragments_witness:
  "\<not> prefix ''A\<newline>B'' ''B\<newline>C''
   \<and> spec_start_index (lines_of ''A\<newline>B'') (lines_of ''B\<newline>C'') = 1
   \<and> dedup_step ''A\<newline>B'' ''B\<newline>C'' [''A\<newline>B''] = [''A\<newline>B'', ''C'']
   \<and> lines_of ''B\<newline>C'' = [''B'', ''C'']
   \<and> dedup_step ''A \<newline>B'' ''A\<newline>B\<newline>C'' [] = [''C'']
   \<and> dedup_step ''X'' ''Y'' [] = [''Y'']"
proof -
  have np: "\<not> prefix ''A\<newline>B'' ''B\<newline>C''"
    by simp
  have si: "spec_start_index (lines_of ''A\<newline>B'') (lines_of ''B\<newline>C'') = 1"
    by code_simp
  have lc: "lines_of ''B\<newline>C'' = [''B'', ''C'']"
    by code_simp
  note T = line_overlap_fragments [of "''A\<newline>B''" "''B\<newline>C''" "[''A\<newline>B'']" "''B\<newline>C''"]
  from T np have "dedup_step ''A\<newline>B'' ''B\<newline>C'' [''A\<newline>B''] =
      [''A\<newline>B''] @ drop (spec_start_index (lines_of ''A\<newline>B'') (lines_of ''B\<newline>C''))
                                 (lines_of ''B\<newline>C'')"
    by blast
  then have a: "dedup_step ''A\<newline>B'' ''B\<newline>C'' [''A\<newline>B''] = [''A\<newline>B'', ''C'']"
    by (simp only: si) (simp add: lc)
  have c: "dedup_step ''A \<newline>B'' ''A\<newline>B\<newline>C'' [] = [''C'']"
    by code_simp
  have d: "dedup_step ''X'' ''Y'' [] = [''Y'']"
    by code_simp
  from np si a lc c d show ?thesis
    by blast
qed

text \<open>
  C3. The docstring of \<open>clean_srt_content\<close> says that it removes the timestamps, and
  the claim that its output depends on the texts of the cues only, not on their numbers
  and times, is what that asks for. The pattern misses one case: after a cue with no text
  line the newline that ends the timing line is the first of the two newlines of the blank
  line, so group 4 does not stop there and runs on over the number, the timing line and
  the text of the next cue. For two files that differ only in the number and the times of
  the cue after a textless one, the single block is that number, that timing line and the
  text, and the outputs differ; where every cue has text (\<open>srt_a\<close>, \<open>srt_b\<close>),
  different numbers and times give the same output.
\<close>

theorem textless_cue_leaks_timing:
  "map cue_text (finditer srt_gap_a) = [''\<newline>2\<newline>00:00:01,000 --> 00:00:02,000\<newline>Hello'']
   \<and> extract_blocks srt_gap_a = [''2\<newline>00:00:01,000 --> 00:00:02,000\<newline>Hello'']
   \<and> clean_srt_content srt_gap_a = ''2\<newline>00:00:01,000 --> 00:00:02,000\<newline>Hello''
   \<and> clean_srt_content srt_gap_b = ''3\<newline>00:00:07,000 --> 00:00:08,000\<newline>Hello''
   \<and> clean_srt_content srt_gap_a \<noteq> clean_srt_content srt_gap_b
   \<and> clean_srt_content srt_a = clean_srt_content srt_b"
proof -
  have m: "map cue_text (finditer srt_gap_a) = [''\<newline>2\<newline>00:00:01,000 --> 00:00:02,000\<newline>Hello'']"
    unfolding srt_gap_a_def by code_simp
  have b: "extract_blocks srt_gap_a = [''2\<newline>00:00:01,000 --> 00:00:02,000\<newline>Hello'']"
    unfolding srt_gap_a_def by code_simp
  have ca: "clean_srt_content srt_gap_a = ''2\<newline>00:00:01,000 --> 00:00:02,000\<newline>Hello''"
    unfolding srt_gap_a_def by code_simp
  have cb: "clean_srt_content srt_gap_b = ''3\<newline>00:00:07,000 --> 00:00:08,000\<newline>Hello''"
    unfolding srt_gap_b_def by code_simp
  have ne: "clean_srt_content srt_gap_a \<noteq> clean_srt_content srt_gap_b"
    by (simp add: ca cb)
  have sa: "clean_srt_content srt_a = ''Hello world''"
    unfolding srt_a_def by code_simp
  have sb: "clean_srt_content srt_b = ''Hello world''"
    unfolding srt_b_def by code_simp
  from m b ca cb ne sa sb show ?thesis
    by simp
qed

section \<open>Properties of the terminology rules\<close>

lemma enforce_terminology_append:
  "enforce_terminology re_sub t (rs1 @ rs2) =
     enforce_terminology re_sub (enforce_terminology re_sub t rs1) rs2"
  by (induction rs1 arbitrary: t) simp_all

lemma enforce_terminology_fold:
  "enforce_terminology re_sub t rules = fold (apply_rule re_sub) rules t"
  by (induction rules arbitrary: t) simp_all

text \<open>
  C4. Each rule is applied to the result of the rules before it: the result for a list
  of rules followed by one more rule is that rule applied to the result for the list,
  so the whole is the left-to-right fold of the rules over the text. The rules
  \<open>foo -> bar\<close>, \<open>bar -> baz\<close> turn \<open>foo\<close> into \<open>baz\<close>.
\<close>

theorem rules_compose_sequentially:
  "enforce_terminology re_sub text (rules @ [rule]) =
     apply_rule re_sub rule (enforce_terminology re_sub text rules)
   \<and> enforce_terminology re_sub text rules = fold (apply_rule re_sub) rules text
   \<and> enforce_terminology re_sub ''foo'' foo_bar_baz = ''baz''"
proof -
  have "enforce_terminology re_sub ''foo'' foo_bar_baz = ''baz''"
    unfolding foo_bar_baz_def by (simp add: apply_rule_def py_replace.simps)
  then show ?thesis
    by (simp add: enforce_terminology_append enforce_terminology_fold [symmetric])
qed

theorem rules_compose_sequentially_witness:
  "enforce_terminology no_regex ''foo'' foo_bar_baz = ''baz''
   \<and> enforce_terminology no_regex ''foo'' foo_bar_baz \<noteq> ''bar''
   \<and> enforce_terminology no_regex ''foo'' ([hd foo_bar_baz] @ [last foo_bar_baz]) =
       apply_rule no_regex (last foo_bar_baz) (enforce_terminology no_regex ''foo'' [hd foo_bar_baz])"
  using rules_compose_sequentially [of no_regex "''foo''" "[hd foo_bar_baz]" "last foo_bar_baz"]
  by simp

text \<open>
  C5. When \<open>re.sub\<close> raises for a regex rule, on the text as the rules before it
  left it, the result is the one of the rule list without that rule: the rule changes
  nothing and the rules after it are applied to the text as it stood. The function
  returns a text in every case.
\<close>

theorem failing_regex_rule_skipped:
  "is_regex rule \<and> re_sub (original rule) (replacement rule)
                      (enforce_terminology re_sub text before) = Inl e
   \<longrightarrow> enforce_terminology re_sub text (before @ rule # after) =
         enforce_terminology re_sub text (before @ after)"
  by (simp add: enforce_terminology_append apply_rule_def)

theorem failing_regex_rule_skipped_witness:
  "is_regex bad_rule
   \<and> no_regex (original bad_rule) (replacement bad_rule)
        (enforce_terminology no_regex ''foo'' [hd foo_bar_baz]) = Inl ReError
   \<and> enforce_terminology no_regex ''foo'' ([hd foo_bar_baz] @ bad_rule # [last foo_bar_baz]) = ''baz''"
proof -
  have r: "is_regex bad_rule"
    by (simp add: bad_rule_def)
  have f: "no_regex (original bad_rule) (replacement bad_rule)
             (enforce_terminology no_regex ''foo'' [hd foo_bar_baz]) = Inl ReError"
    by (simp add: bad_rule_def no_regex_def)
  have b: "enforce_terminology no_regex ''foo'' ([hd foo_bar_baz] @ [last foo_bar_baz]) = ''baz''"
    by (simp add: foo_bar_baz_def apply_rule_def py_replace.simps)
  from failing_regex_rule_skipped [of bad_rule no_regex "''foo''" "[hd foo_bar_baz]" ReError "[last foo_bar_baz]"] r f
  have "enforce_terminology no_regex ''foo'' ([hd foo_bar_baz] @ bad_rule # [last foo_bar_baz]) =
        enforce_terminology no_regex ''foo'' ([hd foo_bar_baz] @ [last foo_bar_baz])"
    by blast
  with r f b show ?thesis
    by simp
qed

section \<open>Properties of discovery\<close>

lemma rag_suffix_sublist: "suffix ''_rag.txt'' f \<Longrightarrow> sublist ''_rag'' f"
proof -
  assume "suffix ''_rag.txt'' f"
  then have "sublist ''_rag.txt'' f"
    by (rule suffix_imp_sublist)
  moreover have "sublist ''_rag'' ''_rag.txt''"
    by (rule prefix_imp_sublist) simp
  ultimately show ?thesis
    by (rule sublist_order.order.trans [rotated])
qed

text \<open>
  C9 as stated, with "does not already bear the output suffix" read as "does not end
  with \<open>_rag.txt\<close>", fails: \<open>x_rag_y.txt\<close> has a recognized extension, is not in the
  denylist, does not end with the output suffix and is not hidden, yet it is not selected.
\<close>

theorem discovery_counterexample:
  "spec_eligible ''x_rag_y.txt'' \<and> ''x_rag_y.txt'' \<notin> set (discover [''x_rag_y.txt''])"
  by code_simp

text \<open>
  C9 amended. A listed name is selected if and only if it ends with \<open>.txt\<close> or
  \<open>.srt\<close>, does not contain \<open>_rag\<close> anywhere, is not in the denylist and does not
  start with a dot. Every selected name is eligible in the sense of the specification.
\<close>

theorem discovery_eligibility:
  "(f \<in> set (discover listing) \<longleftrightarrow>
      f \<in> set listing
      \<and> (suffix ''.txt'' f \<or> suffix ''.srt'' f)
      \<and> \<not> sublist ''_rag'' f
      \<and> f \<notin> set excluded_files
      \<and> \<not> prefix ''.'' f)
   \<and> (f \<in> set (discover listing) \<longrightarrow> spec_eligible f)"
  by (auto simp: discover_def spec_eligible_def dest: rag_suffix_sublist)

theorem discovery_eligibility_witness:
  "''talk.srt'' \<in> set (discover listing_example)
   \<and> spec_eligible ''talk.srt''
   \<and> discover listing_example = [''talk.srt'']"
proof -
  have d: "discover listing_example = [''talk.srt'']"
    unfolding listing_example_def by code_simp
  then have m: "''talk.srt'' \<in> set (discover listing_example)"
    by simp
  from discovery_eligibility [of "''talk.srt''" listing_example] m
  have "spec_eligible ''talk.srt''"
    by blast
  with d m show ?thesis
    by blast
qed

section \<open>Properties of paths\<close>

lemma rfind_absent: "c \<notin> set s \<Longrightarrow> rfind c s = - 1"
  by (simp add: rfind_def)

lemma rfind_last: "c \<notin> set ys \<Longrightarrow> rfind c (xs @ c # ys) = int (length xs)"
proof -
  assume a: "c \<notin> set ys"
  then have all: "\<forall>x \<in> set (rev ys). x \<noteq> c"
    by auto
  have "takeWhile (\<lambda>x. x \<noteq> c) (rev ys @ c # rev xs) = takeWhile (\<lambda>x. x \<noteq> c) (rev ys)"
    by (rule takeWhile_tail) simp
  also have "\<dots> = rev ys"
    using all by (simp only: takeWhile_eq_all_conv)
  finally have "takeWhile (\<lambda>x. x \<noteq> c) (rev ys @ c # rev xs) = rev ys" .
  then show ?thesis
    by (simp add: rfind_def)
qed

lemma basename_plain: "CHR ''/'' \<notin> set f \<Longrightarrow> basename f = f"
  by (simp add: basename_def rfind_absent)

lemma nat_int_Suc: "nat (int n + 1) = Suc n"
  by simp

lemma basename_append: "CHR ''/'' \<notin> set f \<Longrightarrow> basename (d @ CHR ''/'' # f) = f"
  by (simp add: basename_def rfind_last nat_int_Suc)

lemma basename_path_join: "CHR ''/'' \<notin> set f \<Longrightarrow> basename (path_join dir f) = f"
proof -
  assume a: "CHR ''/'' \<notin> set f"
  then have np: "\<not> prefix ''/'' f"
    by (cases f) auto
  show ?thesis
  proof (cases "dir = []")
    case True
    with a np show ?thesis
      by (simp add: path_join_def basename_plain)
  next
    case False
    show ?thesis
    proof (cases "suffix ''/'' dir")
      case True
      then obtain d where "dir = d @ ''/''"
        by (auto simp: suffix_def)
      with a np False show ?thesis
        by (simp add: path_join_def basename_append)
    next
      case False
      with a np \<open>dir \<noteq> []\<close> show ?thesis
        by (simp add: path_join_def basename_append)
    qed
  qed
qed

lemma splitext_stem:
  assumes "CHR ''/'' \<notin> set stem" and "list_ex (\<lambda>c. c \<noteq> CHR ''.'') stem"
    and "CHR ''.'' \<notin> set ext" and "CHR ''/'' \<notin> set ext"
  shows "splitext (stem @ CHR ''.'' # ext) = (stem, CHR ''.'' # ext)"
proof -
  have sep: "rfind (CHR ''/'') (stem @ CHR ''.'' # ext) = - 1"
    using assms by (simp add: rfind_absent)
  have dot: "rfind (CHR ''.'') (stem @ CHR ''.'' # ext) = int (length stem)"
    using assms by (simp add: rfind_last)
  show ?thesis
    using assms(2) by (simp add: splitext_def sep dot)
qed

lemma output_path_of_stem:
  assumes "CHR ''/'' \<notin> set stem" and "list_ex (\<lambda>c. c \<noteq> CHR ''.'') stem"
    and "CHR ''.'' \<notin> set ext" and "CHR ''/'' \<notin> set ext"
  shows "output_path_of (path_join dir (stem @ CHR ''.'' # ext)) output_dir =
           path_join output_dir (stem @ ''_rag.txt'')"
proof -
  have "CHR ''/'' \<notin> set (stem @ CHR ''.'' # ext)"
    using assms by simp
  then have "basename (path_join dir (stem @ CHR ''.'' # ext)) = stem @ CHR ''.'' # ext"
    by (rule basename_path_join)
  then show ?thesis
    using splitext_stem [OF assms] by (simp add: output_path_of_def)
qed

section \<open>Properties of a job\<close>

lemma process_file_skip:
  "files w (output_path_of file_path output_dir) \<noteq> None \<Longrightarrow>
     process_file re_sub cl rag_prompt file_path output_dir rules w = (Skipped, w)"
  by (simp add: process_file_def Let_def)

lemma run_jobs_all_skipped:
  "list_all (\<lambda>f. files w (output_path_of (path_join dir f) output_dir) \<noteq> None) fs \<Longrightarrow>
     run_jobs re_sub cl rag_prompt dir output_dir rules fs w = (map (\<lambda>f. Skipped) fs, w)"
  by (induction fs) (simp_all add: process_file_skip)

lemma files_emit: "files (emit e w) = files w"
  by (simp add: emit_def)

lemma trace_emit: "trace (emit e w) = trace w @ [e]"
  by (simp add: emit_def)

lemma calls_made_emit: "calls_made (emit e w) = calls_made w + (if is_generate e then 1 else 0)"
  by (simp add: emit_def calls_made_def)

lemma gemini_always_failing:
  "(\<forall>n. \<exists>e. cl n prompt = ApiError e) \<Longrightarrow> attempt \<le> max_retries \<Longrightarrow>
     fst (gemini_attempts cl prompt max_retries attempt w) = Some []
     \<and> calls_made (snd (gemini_attempts cl prompt max_retries attempt w))
         = calls_made w + nat (max_retries - attempt)
     \<and> files (snd (gemini_attempts cl prompt max_retries attempt w)) = files w
     \<and> filter is_write (trace (snd (gemini_attempts cl prompt max_retries attempt w)))
         = filter is_write (trace w)"
proof (induction cl prompt max_retries attempt w rule: gemini_attempts.induct)
  case (1 cl prompt max_retries attempt w)
  show ?case
  proof (cases "attempt < max_retries")
    case False
    with "1.prems" show ?thesis
      by (subst (1 2 3 4) gemini_attempts.simps) simp
  next
    case True
    from "1.prems"(1) obtain e where e: "cl (calls_made w) prompt = ApiError e"
      by blast
    from True have le: "attempt + 1 \<le> max_retries"
      by simp
    let ?w1 = "emit (Generate prompt) w"
    show ?thesis
    proof (cases "is_rate_limited e")
      case rl: True
      let ?w2 = "emit (Sleep ((attempt + 1) * 5)) ?w1"
      note IH = "1.IH"(1) [OF True refl e rl "1.prems"(1) le]
      have step: "gemini_attempts cl prompt max_retries attempt w =
                  gemini_attempts cl prompt max_retries (attempt + 1) ?w2"
        using True e rl by (subst gemini_attempts.simps) (simp add: Let_def)
      have c: "calls_made ?w2 + nat (max_retries - (attempt + 1)) =
               calls_made w + nat (max_retries - attempt)"
        using True by (simp add: calls_made_emit)
      have f: "files ?w2 = files w"
        by (simp add: files_emit)
      have t: "filter is_write (trace ?w2) = filter is_write (trace w)"
        by (simp add: trace_emit)
      from IH show ?thesis
        by (simp only: step c f t)
    next
      case nrl: False
      show ?thesis
      proof (cases "attempt = max_retries - 1")
        case last: True
        have step: "gemini_attempts cl prompt max_retries attempt w = (Some [], ?w1)"
          using True e nrl last by (subst gemini_attempts.simps) (simp add: Let_def)
        have c: "calls_made ?w1 = calls_made w + nat (max_retries - attempt)"
          using last by (simp add: calls_made_emit)
        show ?thesis
          by (simp only: step c fst_conv snd_conv) (simp add: files_emit trace_emit)
      next
        case notlast: False
        let ?w2 = "emit (Sleep 2) ?w1"
        note IH = "1.IH"(2) [OF True refl e nrl notlast "1.prems"(1) le]
        have step: "gemini_attempts cl prompt max_retries attempt w =
                    gemini_attempts cl prompt max_retries (attempt + 1) ?w2"
          using True e nrl notlast by (subst gemini_attempts.simps) (simp add: Let_def)
        have c: "calls_made ?w2 + nat (max_retries - (attempt + 1)) =
                 calls_made w + nat (max_retries - attempt)"
          using True by (simp add: calls_made_emit)
        have f: "files ?w2 = files w"
          by (simp add: files_emit)
        have t: "filter is_write (trace ?w2) = filter is_write (trace w)"
          by (simp add: trace_emit)
        from IH show ?thesis
          by (simp only: step c f t)
      qed
    qed
  qed
qed

lemma process_file_always_failing:
  assumes cl: "\<forall>n p. \<exists>e. cl n p = ApiError e"
    and out: "files w (output_path_of file_path output_dir) = None"
    and inp: "files w file_path = Some raw"
    and ne: "strip (if suffix ''.srt'' (lower (basename file_path))
                    then clean_srt_content raw else raw) \<noteq> []"
  shows "fst (process_file re_sub cl rag_prompt file_path output_dir rules w) = Failed"
    and "files (snd (process_file re_sub cl rag_prompt file_path output_dir rules w)) = files w"
    and "calls_made (snd (process_file re_sub cl rag_prompt file_path output_dir rules w))
           = calls_made w + 3"
    and "filter is_write (trace (snd (process_file re_sub cl rag_prompt file_path output_dir rules w)))
           = filter is_write (trace w)"
proof -
  define content where "content = (if suffix ''.srt'' (lower (basename file_path))
                                   then clean_srt_content raw else raw)"
  define w1 where "w1 = emit (Read file_path) w"
  define r where "r = gemini_attempts cl (rag_prompt content (basename file_path)) 3 0 w1"
  from cl have a: "\<forall>n. \<exists>e. cl n (rag_prompt content (basename file_path)) = ApiError e"
    by blast
  have le: "(0::int) \<le> 3"
    by simp
  from gemini_always_failing [where cl = cl and prompt = "rag_prompt content (basename file_path)"
         and attempt = 0 and max_retries = 3 and w = w1, OF a le]
  have g: "fst r = Some []" "calls_made (snd r) = calls_made w1 + 3" "files (snd r) = files w1"
    "filter is_write (trace (snd r)) = filter is_write (trace w1)"
    by (simp_all add: r_def)
  have pf: "process_file re_sub cl rag_prompt file_path output_dir rules w = (Failed, snd r)"
    using out inp ne g(1)
    by (cases r) (simp add: process_file_def Let_def process_with_gemini_def
        content_def [symmetric] w1_def [symmetric] r_def [symmetric])
  show "fst (process_file re_sub cl rag_prompt file_path output_dir rules w) = Failed"
    by (simp add: pf)
  show "files (snd (process_file re_sub cl rag_prompt file_path output_dir rules w)) = files w"
    by (simp add: pf g w1_def files_emit)
  show "calls_made (snd (process_file re_sub cl rag_prompt file_path output_dir rules w))
           = calls_made w + 3"
    by (simp add: pf g w1_def calls_made_emit)
  show "filter is_write (trace (snd (process_file re_sub cl rag_prompt file_path output_dir rules w)))
           = filter is_write (trace w)"
    by (simp add: pf g w1_def trace_emit)
qed

lemma process_file_succeeded_exists:
  "fst (process_file re_sub cl rag_prompt file_path output_dir rules w) = Succeeded \<Longrightarrow>
     files (snd (process_file re_sub cl rag_prompt file_path output_dir rules w))
       (output_path_of file_path output_dir) \<noteq> None"
  by (auto simp: process_file_def Let_def emit_def split: option.splits prod.splits if_splits)

text \<open>
  C6. When the output path of a file exists in the world in which \<open>process_file\<close>
  starts, the job is skipped and the world is returned as it was: no event is added to the
  trace (no read, no call of the client, no write) and no file changes. Hence a run over
  a list of names whose output paths all exist skips every job and leaves the world as it
  was. The jobs of a run are taken one after the other.
\<close>

theorem idempotent_skip:
  "(files w (output_path_of file_path output_dir) \<noteq> None \<longrightarrow>
      process_file re_sub cl rag_prompt file_path output_dir rules w = (Skipped, w))
   \<and> ((\<forall>f \<in> set fs. files w (output_path_of (path_join dir f) output_dir) \<noteq> None) \<longrightarrow>
        run_jobs re_sub cl rag_prompt dir output_dir rules fs w = (map (\<lambda>f. Skipped) fs, w))"
  by (simp add: process_file_skip run_jobs_all_skipped list_all_iff)

theorem idempotent_skip_witness:
  "files world_done (output_path_of ''in/X.txt'' ''out'') \<noteq> None
   \<and> process_file no_regex echo_client prompt_example ''in/X.txt'' ''out'' foo_bar_baz world_done
       = (Skipped, world_done)
   \<and> list_all (\<lambda>f. files world_done (output_path_of (path_join ''in'' f) ''out'') \<noteq> None)
        [''X.txt'', ''X.srt'']
   \<and> run_jobs no_regex echo_client prompt_example ''in'' ''out'' foo_bar_baz
        [''X.txt'', ''X.srt''] world_done = ([Skipped, Skipped], world_done)"
proof -
  have o1: "output_path_of ''in/X.txt'' ''out'' = ''out/X_rag.txt''"
    by code_simp
  have o2: "output_path_of (path_join ''in'' ''X.txt'') ''out'' = ''out/X_rag.txt''"
    by code_simp
  have o3: "output_path_of (path_join ''in'' ''X.srt'') ''out'' = ''out/X_rag.txt''"
    by code_simp
  have e: "files world_done ''out/X_rag.txt'' \<noteq> None"
    by (simp add: world_done_def)
  have h1: "files world_done (output_path_of ''in/X.txt'' ''out'') \<noteq> None"
    by (simp only: o1 e not_False_eq_True)
  have h2: "\<forall>f \<in> set [''X.txt'', ''X.srt''].
              files world_done (output_path_of (path_join ''in'' f) ''out'') \<noteq> None"
    using e by (simp add: o2 o3)
  note T = idempotent_skip [of world_done "''in/X.txt''" "''out''" no_regex echo_client
                               prompt_example foo_bar_baz "[''X.txt'', ''X.srt'']" "''in''"]
  from T h1 have a: "process_file no_regex echo_client prompt_example ''in/X.txt'' ''out''
                       foo_bar_baz world_done = (Skipped, world_done)"
    by blast
  from T h2 have b: "run_jobs no_regex echo_client prompt_example ''in'' ''out'' foo_bar_baz
                       [''X.txt'', ''X.srt''] world_done = ([Skipped, Skipped], world_done)"
    by simp
  from h2 have l: "list_all (\<lambda>f. files world_done (output_path_of (path_join ''in'' f) ''out'') \<noteq> None)
        [''X.txt'', ''X.srt'']"
    by (simp only: list_all_iff)
  from h1 a l b show ?thesis
    by blast
qed

text \<open>
  C8. When the output path does not exist, the input file can be read and its content,
  cleaned when the name ends with \<open>.srt\<close>, is empty once stripped, the job ends with
  the empty-content outcome after the read alone: the number of calls of the client is
  the one before the job and the files are the ones before the job.
\<close>

theorem empty_content_short_circuit:
  "files w (output_path_of file_path output_dir) = None
   \<and> files w file_path = Some raw
   \<and> strip (if suffix ''.srt'' (lower (basename file_path)) then clean_srt_content raw else raw) = []
   \<longrightarrow> process_file re_sub cl rag_prompt file_path output_dir rules w
         = (EmptyContent, emit (Read file_path) w)
       \<and> calls_made (emit (Read file_path) w) = calls_made w
       \<and> files (emit (Read file_path) w) = files w"
  by (simp add: process_file_def Let_def emit_def calls_made_def)

theorem empty_content_short_circuit_witness:
  "files world_new (output_path_of ''in/E.srt'' ''out'') = None
   \<and> files world_new ''in/E.srt'' = Some srt_empty
   \<and> clean_srt_content srt_empty = []
   \<and> process_file no_regex echo_client prompt_example ''in/E.srt'' ''out'' foo_bar_baz world_new
       = (EmptyContent, emit (Read ''in/E.srt'') world_new)"
proof -
  have o: "output_path_of ''in/E.srt'' ''out'' = ''out/E_rag.txt''"
    by code_simp
  have h1: "files world_new (output_path_of ''in/E.srt'' ''out'') = None"
    by (simp add: o world_new_def)
  have h2: "files world_new ''in/E.srt'' = Some srt_empty"
    by (simp add: world_new_def)
  have c: "clean_srt_content srt_empty = []"
    unfolding srt_empty_def by code_simp
  have s: "suffix ''.srt'' (lower (basename ''in/E.srt''))"
    by code_simp
  have h3: "strip (if suffix ''.srt'' (lower (basename ''in/E.srt''))
                   then clean_srt_content srt_empty else srt_empty) = []"
    by (simp add: s c strip_def)
  from empty_content_short_circuit [of world_new "''in/E.srt''" "''out''" srt_empty no_regex
         echo_client prompt_example foo_bar_baz] h1 h2 h3
  have "process_file no_regex echo_client prompt_example ''in/E.srt'' ''out'' foo_bar_baz world_new
       = (EmptyContent, emit (Read ''in/E.srt'') world_new)"
    by blast
  with h1 h2 c show ?thesis
    by blast
qed

text \<open>
  C7. For a client that answers every call for the prompt with an error, rate-limited or
  not, and a non-negative \<open>max_retries\<close>, \<open>process_with_gemini\<close> returns the empty
  text after exactly \<open>max_retries\<close> calls and changes no file. A job that reaches the
  call with such a client ends with the outcome \<open>Failed\<close> after exactly three calls,
  with the files as they were and without any write.
\<close>

theorem retry_exhaustion:
  "((\<forall>n. \<exists>e. cl n prompt = ApiError e) \<and> 0 \<le> max_retries \<longrightarrow>
      fst (process_with_gemini cl prompt max_retries w) = Some []
      \<and> calls_made (snd (process_with_gemini cl prompt max_retries w))
          = calls_made w + nat max_retries
      \<and> files (snd (process_with_gemini cl prompt max_retries w)) = files w)
   \<and> ((\<forall>n p. \<exists>e. cl n p = ApiError e)
       \<and> files w (output_path_of file_path output_dir) = None
       \<and> files w file_path = Some raw
       \<and> strip (if suffix ''.srt'' (lower (basename file_path))
                 then clean_srt_content raw else raw) \<noteq> [] \<longrightarrow>
      fst (process_file re_sub cl rag_prompt file_path output_dir rules w) = Failed
      \<and> calls_made (snd (process_file re_sub cl rag_prompt file_path output_dir rules w))
          = calls_made w + 3
      \<and> files (snd (process_file re_sub cl rag_prompt file_path output_dir rules w)) = files w
      \<and> filter is_write (trace (snd (process_file re_sub cl rag_prompt file_path output_dir rules w)))
          = filter is_write (trace w))"
proof (intro conjI impI)
  assume a: "(\<forall>n. \<exists>e. cl n prompt = ApiError e) \<and> 0 \<le> max_retries"
  then have f: "\<forall>n. \<exists>e. cl n prompt = ApiError e" and le: "0 \<le> max_retries"
    by blast+
  note g = gemini_always_failing [where cl = cl and prompt = prompt and attempt = 0
      and max_retries = max_retries and w = w, OF f le]
  from g show "fst (process_with_gemini cl prompt max_retries w) = Some []"
    by (simp add: process_with_gemini_def)
  from g show "calls_made (snd (process_with_gemini cl prompt max_retries w))
          = calls_made w + nat max_retries"
    by (simp add: process_with_gemini_def)
  from g show "files (snd (process_with_gemini cl prompt max_retries w)) = files w"
    by (simp add: process_with_gemini_def)
next
  assume b: "(\<forall>n p. \<exists>e. cl n p = ApiError e)
       \<and> files w (output_path_of file_path output_dir) = None
       \<and> files w file_path = Some raw
       \<and> strip (if suffix ''.srt'' (lower (basename file_path))
                 then clean_srt_content raw else raw) \<noteq> []"
  then have h: "\<forall>n p. \<exists>e. cl n p = ApiError e"
    "files w (output_path_of file_path output_dir) = None"
    "files w file_path = Some raw"
    "strip (if suffix ''.srt'' (lower (basename file_path))
                 then clean_srt_content raw else raw) \<noteq> []"
    by blast+
  show "fst (process_file re_sub cl rag_prompt file_path output_dir rules w) = Failed"
    by (rule process_file_always_failing(1) [OF h])
  show "calls_made (snd (process_file re_sub cl rag_prompt file_path output_dir rules w))
          = calls_made w + 3"
    by (rule process_file_always_failing(3) [OF h])
  show "files (snd (process_file re_sub cl rag_prompt file_path output_dir rules w)) = files w"
    by (rule process_file_always_failing(2) [OF h])
  show "filter is_write (trace (snd (process_file re_sub cl rag_prompt file_path output_dir rules w)))
          = filter is_write (trace w)"
    by (rule process_file_always_failing(4) [OF h])
qed

theorem retry_exhaustion_witness:
  "always_429 0 ''p'' = ApiError ''429 RESOURCE_EXHAUSTED''
   \<and> is_rate_limited ''429 RESOURCE_EXHAUSTED''
   \<and> fst (process_with_gemini always_429 ''p'' 3 world_new) = Some []
   \<and> calls_made (snd (process_with_gemini always_429 ''p'' 3 world_new)) = 3
   \<and> files world_new (output_path_of ''in/X.txt'' ''out'') = None
   \<and> files world_new ''in/X.txt'' = Some ''some text''
   \<and> fst (process_file no_regex always_429 prompt_example ''in/X.txt'' ''out'' foo_bar_baz world_new)
       = Failed
   \<and> calls_made (snd (process_file no_regex always_429 prompt_example ''in/X.txt'' ''out''
        foo_bar_baz world_new)) = 3
   \<and> files (snd (process_file no_regex always_429 prompt_example ''in/X.txt'' ''out''
        foo_bar_baz world_new)) = files world_new"
proof -
  have a0: "always_429 0 ''p'' = ApiError ''429 RESOURCE_EXHAUSTED''"
    by (simp add: always_429_def)
  have rl: "is_rate_limited ''429 RESOURCE_EXHAUSTED''"
    by code_simp
  have a1: "\<forall>n. \<exists>e. always_429 n ''p'' = ApiError e"
    by (simp add: always_429_def)
  have a2: "\<forall>n p. \<exists>e. always_429 n p = ApiError e"
    by (simp add: always_429_def)
  have le: "(0::int) \<le> 3"
    by simp
  have c0: "calls_made world_new = 0"
    by (simp add: calls_made_def world_new_def)
  have o: "output_path_of ''in/X.txt'' ''out'' = ''out/X_rag.txt''"
    by code_simp
  have h1: "files world_new (output_path_of ''in/X.txt'' ''out'') = None"
    by (simp add: o world_new_def)
  have h2: "files world_new ''in/X.txt'' = Some ''some text''"
    by (simp add: world_new_def)
  have s: "\<not> suffix ''.srt'' (lower (basename ''in/X.txt''))"
    by code_simp
  have st: "strip ''some text'' \<noteq> []"
    by code_simp
  have h3: "strip (if suffix ''.srt'' (lower (basename ''in/X.txt''))
                   then clean_srt_content ''some text'' else ''some text'') \<noteq> []"
    using s st by simp
  note T = retry_exhaustion [of always_429 "''p''" 3 world_new "''in/X.txt''" "''out''"
      "''some text''" no_regex prompt_example foo_bar_baz]
  from T a1 le have p1: "fst (process_with_gemini always_429 ''p'' 3 world_new) = Some []"
    and p2: "calls_made (snd (process_with_gemini always_429 ''p'' 3 world_new)) = 3"
    by (simp_all add: c0)
  from T a2 h1 h2 h3
  have q1: "fst (process_file no_regex always_429 prompt_example ''in/X.txt'' ''out'' foo_bar_baz
              world_new) = Failed"
    and q2: "calls_made (snd (process_file no_regex always_429 prompt_example ''in/X.txt'' ''out''
        foo_bar_baz world_new)) = 3"
    and q3: "files (snd (process_file no_regex always_429 prompt_example ''in/X.txt'' ''out''
        foo_bar_baz world_new)) = files world_new"
    by (simp_all add: c0)
  from a0 rl p1 p2 h1 h2 q1 q2 q3 show ?thesis
    by blast
qed

section \<open>Properties of the pool\<close>

lemma job_step_Pending:
  "job_step re_sub cl rag_prompt file_path output_dir rules Pending w =
     (if files w (output_path_of file_path output_dir) \<noteq> None then (Done Skipped, w)
      else (Started, w))"
  by (simp add: job_step_def Let_def)

lemma job_step_Started:
  "job_step re_sub cl rag_prompt file_path output_dir rules Started w =
     (case files w file_path of
        None \<Rightarrow> (Done Crashed, w)
      | Some raw \<Rightarrow>
          if strip (if suffix ''.srt'' (lower (basename file_path))
                    then clean_srt_content raw else raw) = []
          then (Done EmptyContent, emit (Read file_path) w)
          else (Loaded (if suffix ''.srt'' (lower (basename file_path))
                        then clean_srt_content raw else raw), emit (Read file_path) w))"
  by (simp add: job_step_def Let_def split: option.split)

lemma job_step_Loaded:
  "job_step re_sub cl rag_prompt file_path output_dir rules (Loaded content) w =
     (case fst (process_with_gemini cl (rag_prompt content (basename file_path)) 3 w) of
        None \<Rightarrow> (Done Failed, snd (process_with_gemini cl (rag_prompt content (basename file_path)) 3 w))
      | Some optimized_text \<Rightarrow>
          if optimized_text = []
          then (Done Failed, snd (process_with_gemini cl (rag_prompt content (basename file_path)) 3 w))
          else (Generated optimized_text content,
                snd (process_with_gemini cl (rag_prompt content (basename file_path)) 3 w)))"
  by (cases "process_with_gemini cl (rag_prompt content (basename file_path)) 3 w")
     (simp add: job_step_def Let_def split: option.splits)

lemma job_step_Generated:
  "job_step re_sub cl rag_prompt file_path output_dir rules (Generated optimized_text content) w =
     (if write_fails w (output_path_of file_path output_dir) then (Done Crashed, w)
      else (Done Succeeded,
            emit (Write (output_path_of file_path output_dir))
              (w\<lparr>files := (files w)(output_path_of file_path output_dir \<mapsto>
                      enforce_terminology re_sub optimized_text rules @ separator @ content)\<rparr>)))"
  by (simp add: job_step_def Let_def)

lemma job_step_Done:
  "job_step re_sub cl rag_prompt file_path output_dir rules (Done r) w = (Done r, w)"
  by (simp add: job_step_def Let_def)

lemma job_run_Done:
  "job_run re_sub cl rag_prompt file_path output_dir rules n (Done r) w = (Done r, w)"
  by (induction n) (simp_all add: job_step_Done)

lemma job_run_process_file:
  "job_run re_sub cl rag_prompt file_path output_dir rules 4 Pending w =
     (Done (fst (process_file re_sub cl rag_prompt file_path output_dir rules w)),
      snd (process_file re_sub cl rag_prompt file_path output_dir rules w))"
proof (cases "files w (output_path_of file_path output_dir) \<noteq> None")
  case True
  then have "process_file re_sub cl rag_prompt file_path output_dir rules w = (Skipped, w)"
    by (simp add: process_file_def Let_def)
  with True show ?thesis
    by (simp add: eval_nat_numeral job_step_Pending job_run_Done)
next
  case absent: False
  show ?thesis
  proof (cases "files w file_path")
    case None
    with absent have "process_file re_sub cl rag_prompt file_path output_dir rules w = (Crashed, w)"
      by (simp add: process_file_def Let_def)
    with absent None show ?thesis
      by (simp add: eval_nat_numeral job_step_Pending job_step_Started job_run_Done)
  next
    case (Some raw)
    define content where "content = (if suffix ''.srt'' (lower (basename file_path))
                                     then clean_srt_content raw else raw)"
    define w1 where "w1 = emit (Read file_path) w"
    show ?thesis
    proof (cases "strip content = []")
      case True
      with absent Some
      have "process_file re_sub cl rag_prompt file_path output_dir rules w = (EmptyContent, w1)"
        by (simp add: process_file_def Let_def content_def w1_def)
      with absent Some True show ?thesis
        by (simp add: eval_nat_numeral job_step_Pending job_step_Started job_run_Done
            content_def w1_def)
    next
      case nonblank: False
      obtain reply w2 where g: "process_with_gemini cl (rag_prompt content (basename file_path)) 3 w1
                             = (reply, w2)"
        by (cases "process_with_gemini cl (rag_prompt content (basename file_path)) 3 w1")
      have two: "job_run re_sub cl rag_prompt file_path output_dir rules 4 Pending w =
                 job_run re_sub cl rag_prompt file_path output_dir rules 2 (Loaded content) w1"
        using absent Some nonblank
        by (simp add: eval_nat_numeral job_step_Pending job_step_Started content_def w1_def)
      show ?thesis
      proof (cases "reply = None \<or> reply = Some []")
        case True
        with absent Some nonblank g
        have "process_file re_sub cl rag_prompt file_path output_dir rules w = (Failed, w2)"
          by (auto simp: process_file_def Let_def content_def [symmetric] w1_def [symmetric])
        moreover from True g
        have "job_run re_sub cl rag_prompt file_path output_dir rules 2 (Loaded content) w1 =
                (Done Failed, w2)"
          by (auto simp: eval_nat_numeral job_step_Loaded job_run_Done)
        ultimately show ?thesis
          by (simp add: two)
      next
        case False
        then obtain optimized_text where r: "reply = Some optimized_text" "optimized_text \<noteq> []"
          by auto
        have three: "job_run re_sub cl rag_prompt file_path output_dir rules 2 (Loaded content) w1 =
                     job_step re_sub cl rag_prompt file_path output_dir rules
                       (Generated optimized_text content) w2"
          using g r by (simp add: eval_nat_numeral job_step_Loaded split: prod.split)
        show ?thesis
        proof (cases "write_fails w2 (output_path_of file_path output_dir)")
          case True
          with absent Some nonblank g r
          have "process_file re_sub cl rag_prompt file_path output_dir rules w = (Crashed, w2)"
            by (simp add: process_file_def Let_def content_def [symmetric] w1_def [symmetric])
          with True show ?thesis
            by (simp add: two three job_step_Generated)
        next
          case False
          with absent Some nonblank g r
          have "process_file re_sub cl rag_prompt file_path output_dir rules w =
                  (Succeeded,
                   emit (Write (output_path_of file_path output_dir))
                     (w2\<lparr>files := (files w2)(output_path_of file_path output_dir \<mapsto>
                        enforce_terminology re_sub optimized_text rules @ separator @ content)\<rparr>))"
            by (simp add: process_file_def Let_def content_def [symmetric] w1_def [symmetric])
          with False show ?thesis
            by (simp add: two three job_step_Generated)
        qed
      qed
    qed
  qed
qed

lemma gemini_attempts_files:
  "files (snd (gemini_attempts cl prompt max_retries attempt w)) = files w"
proof (induction cl prompt max_retries attempt w rule: gemini_attempts.induct)
  case (1 cl prompt max_retries attempt w)
  show ?case
  proof (cases "attempt < max_retries")
    case False
    then show ?thesis
      by (subst gemini_attempts.simps) simp
  next
    case True
    let ?w1 = "emit (Generate prompt) w"
    show ?thesis
    proof (cases "cl (calls_made w) prompt")
      case (Reply t)
      with True show ?thesis
        by (subst gemini_attempts.simps) (simp add: Let_def files_emit)
    next
      case (ApiError e)
      show ?thesis
      proof (cases "is_rate_limited e")
        case rl: True
        note IH = "1.IH"(1) [OF True refl ApiError rl]
        have "gemini_attempts cl prompt max_retries attempt w =
              gemini_attempts cl prompt max_retries (attempt + 1)
                (emit (Sleep ((attempt + 1) * 5)) ?w1)"
          using True ApiError rl by (subst gemini_attempts.simps) (simp add: Let_def)
        with IH show ?thesis
          by (simp add: files_emit)
      next
        case nrl: False
        show ?thesis
        proof (cases "attempt = max_retries - 1")
          case last: True
          have "gemini_attempts cl prompt max_retries attempt w = (Some [], ?w1)"
            using True ApiError nrl last by (subst gemini_attempts.simps) (simp add: Let_def)
          then show ?thesis
            by (simp add: files_emit)
        next
          case notlast: False
          note IH = "1.IH"(2) [OF True refl ApiError nrl notlast]
          have "gemini_attempts cl prompt max_retries attempt w =
                gemini_attempts cl prompt max_retries (attempt + 1) (emit (Sleep 2) ?w1)"
            using True ApiError nrl notlast by (subst gemini_attempts.simps) (simp add: Let_def)
          with IH show ?thesis
            by (simp add: files_emit)
        qed
      qed
    qed
  qed
qed

lemma job_step_files_mono:
  "files w p \<noteq> None \<Longrightarrow>
     files (snd (job_step re_sub cl rag_prompt file_path output_dir rules j w)) p \<noteq> None"
proof (cases j)
  case Pending
  assume "files w p \<noteq> None"
  with Pending show ?thesis
    by (simp add: job_step_Pending)
next
  case Started
  assume "files w p \<noteq> None"
  with Started show ?thesis
    by (simp add: job_step_Started files_emit split: option.split)
next
  case (Loaded content)
  assume "files w p \<noteq> None"
  with Loaded show ?thesis
    by (simp add: job_step_Loaded process_with_gemini_def gemini_attempts_files
        split: option.split)
next
  case (Generated optimized_text content)
  assume "files w p \<noteq> None"
  with Generated show ?thesis
    by (simp add: job_step_Generated files_emit)
next
  case (Done r)
  assume "files w p \<noteq> None"
  with Done show ?thesis
    by (simp add: job_step_Done)
qed

lemma job_step_succeeded:
  "fst (job_step re_sub cl rag_prompt file_path output_dir rules j w) = Done Succeeded \<Longrightarrow>
     j = Done Succeeded
     \<or> files (snd (job_step re_sub cl rag_prompt file_path output_dir rules j w))
          (output_path_of file_path output_dir) \<noteq> None"
proof (cases j)
  case Pending
  assume "fst (job_step re_sub cl rag_prompt file_path output_dir rules j w) = Done Succeeded"
  with Pending show ?thesis
    by (simp add: job_step_Pending split: if_splits)
next
  case Started
  assume "fst (job_step re_sub cl rag_prompt file_path output_dir rules j w) = Done Succeeded"
  with Started show ?thesis
    by (simp add: job_step_Started split: option.splits if_splits)
next
  case (Loaded content)
  assume "fst (job_step re_sub cl rag_prompt file_path output_dir rules j w) = Done Succeeded"
  with Loaded show ?thesis
    by (simp add: job_step_Loaded split: option.splits if_splits)
next
  case (Generated optimized_text content)
  assume "fst (job_step re_sub cl rag_prompt file_path output_dir rules j w) = Done Succeeded"
  with Generated show ?thesis
    by (simp add: job_step_Generated files_emit split: if_splits)
next
  case (Done r)
  assume "fst (job_step re_sub cl rag_prompt file_path output_dir rules j w) = Done Succeeded"
  with Done show ?thesis
    by (simp add: job_step_Done)
qed

lemma pool_step_length:
  "length (fst (pool_step re_sub cl rag_prompt workers dir output_dir rules fs i st)) = length (fst st)"
  by (simp add: pool_step_def split: prod.split)

lemma pool_step_other:
  "k \<noteq> i \<Longrightarrow>
     fst (pool_step re_sub cl rag_prompt workers dir output_dir rules fs i st) ! k = fst st ! k"
  by (simp add: pool_step_def split: prod.split)

lemma pool_step_files_mono:
  "files (snd st) p \<noteq> None \<Longrightarrow>
     files (snd (pool_step re_sub cl rag_prompt workers dir output_dir rules fs i st)) p \<noteq> None"
proof (cases "may_step workers (fst st) i")
  case False
  assume "files (snd st) p \<noteq> None"
  with False show ?thesis
    by (simp add: pool_step_def)
next
  case True
  assume a: "files (snd st) p \<noteq> None"
  have "snd (pool_step re_sub cl rag_prompt workers dir output_dir rules fs i st) =
        snd (job_step re_sub cl rag_prompt (path_join dir (fs ! i)) output_dir rules
               (fst st ! i) (snd st))"
    using True by (simp add: pool_step_def split: prod.split)
  with job_step_files_mono [OF a] show ?thesis
    by simp
qed

lemma pool_step_waiting:
  assumes k: "k < length (fst st)"
    and ex: "files (snd st) (output_path_of (path_join dir (fs ! k)) output_dir) \<noteq> None"
    and st: "fst st ! k = Pending \<or> fst st ! k = Done Skipped"
  shows "fst (pool_step re_sub cl rag_prompt workers dir output_dir rules fs i st) ! k = Pending
         \<or> fst (pool_step re_sub cl rag_prompt workers dir output_dir rules fs i st) ! k = Done Skipped"
proof (cases "k = i")
  case False
  with st show ?thesis
    by (simp add: pool_step_other)
next
  case True
  show ?thesis
  proof (cases "may_step workers (fst st) i")
    case False
    with st True show ?thesis
      by (simp add: pool_step_def)
  next
    case may: True
    from st show ?thesis
    proof
      assume p: "fst st ! k = Pending"
      with True ex k may show ?thesis
        by (simp add: pool_step_def job_step_Pending)
    next
      assume "fst st ! k = Done Skipped"
      with True may show ?thesis
        by (simp add: may_step_def)
    qed
  qed
qed

lemma outputs_written_iff:
  "outputs_written dir output_dir fs st \<longleftrightarrow>
     (\<forall>i < length (fst st). fst st ! i = Done Succeeded \<longrightarrow>
        files (snd st) (output_path_of (path_join dir (fs ! i)) output_dir) \<noteq> None)"
  by (auto simp: outputs_written_def list_all_iff)

lemma pool_step_outputs_written:
  assumes inv: "outputs_written dir output_dir fs st"
  shows "outputs_written dir output_dir fs
           (pool_step re_sub cl rag_prompt workers dir output_dir rules fs i st)"
  unfolding outputs_written_iff
proof (intro allI impI)
  fix k
  let ?st' = "pool_step re_sub cl rag_prompt workers dir output_dir rules fs i st"
  assume k: "k < length (fst ?st')" and d: "fst ?st' ! k = Done Succeeded"
  from k have k': "k < length (fst st)"
    by (simp add: pool_step_length)
  show "files (snd ?st') (output_path_of (path_join dir (fs ! k)) output_dir) \<noteq> None"
  proof (cases "k = i \<and> may_step workers (fst st) i \<and> fst st ! i \<noteq> Done Succeeded")
    case False
    then have "fst st ! k = Done Succeeded"
    proof (cases "k = i")
      case False
      with d show ?thesis
        by (simp add: pool_step_other)
    next
      case True
      with False have "\<not> may_step workers (fst st) i \<or> fst st ! i = Done Succeeded"
        by simp
      then show ?thesis
      proof
        assume "\<not> may_step workers (fst st) i"
        with d True show ?thesis
          by (simp add: pool_step_def)
      next
        assume "fst st ! i = Done Succeeded"
        with True show ?thesis
          by simp
      qed
    qed
    with inv k' have "files (snd st) (output_path_of (path_join dir (fs ! k)) output_dir) \<noteq> None"
      by (simp add: outputs_written_iff)
    then show ?thesis
      by (rule pool_step_files_mono)
  next
    case True
    then have ki: "k = i" and may: "may_step workers (fst st) i"
      and ns: "fst st ! i \<noteq> Done Succeeded"
      by simp_all
    let ?r = "job_step re_sub cl rag_prompt (path_join dir (fs ! i)) output_dir rules
                (fst st ! i) (snd st)"
    have eq: "?st' = ((fst st)[i := fst ?r], snd ?r)"
      using may by (simp add: pool_step_def split: prod.split)
    from d ki k' have "fst ?r = Done Succeeded"
      by (simp add: eq)
    from job_step_succeeded [OF this] ns
    have "files (snd ?r) (output_path_of (path_join dir (fs ! i)) output_dir) \<noteq> None"
      by simp
    with ki show ?thesis
      by (simp add: eq)
  qed
qed

lemma pool_run_length:
  "length (fst (fold (pool_step re_sub cl rag_prompt workers dir output_dir rules fs) schedule st))
     = length (fst st)"
  by (induction schedule arbitrary: st) (simp_all add: pool_step_length)

lemma pool_run_files_mono:
  "files (snd st) p \<noteq> None \<Longrightarrow>
     files (snd (fold (pool_step re_sub cl rag_prompt workers dir output_dir rules fs) schedule st)) p
       \<noteq> None"
proof (induction schedule arbitrary: st)
  case Nil
  then show ?case
    by simp
next
  case (Cons i schedule)
  from Cons.prems
  have "files (snd (pool_step re_sub cl rag_prompt workers dir output_dir rules fs i st)) p \<noteq> None"
    by (rule pool_step_files_mono)
  from Cons.IH [OF this] show ?case
    by simp
qed

lemma pool_run_outputs_written:
  "outputs_written dir output_dir fs st \<Longrightarrow>
     outputs_written dir output_dir fs
       (fold (pool_step re_sub cl rag_prompt workers dir output_dir rules fs) schedule st)"
proof (induction schedule arbitrary: st)
  case Nil
  then show ?case
    by simp
next
  case (Cons i schedule)
  from Cons.prems
  have "outputs_written dir output_dir fs
          (pool_step re_sub cl rag_prompt workers dir output_dir rules fs i st)"
    by (rule pool_step_outputs_written)
  from Cons.IH [OF this] show ?case
    by simp
qed

lemma pool_run_waiting:
  "k < length (fst st) \<Longrightarrow>
   files (snd st) (output_path_of (path_join dir (fs ! k)) output_dir) \<noteq> None \<Longrightarrow>
   fst st ! k = Pending \<or> fst st ! k = Done Skipped \<Longrightarrow>
     fst (fold (pool_step re_sub cl rag_prompt workers dir output_dir rules fs) schedule st) ! k = Pending
     \<or> fst (fold (pool_step re_sub cl rag_prompt workers dir output_dir rules fs) schedule st) ! k
         = Done Skipped"
proof (induction schedule arbitrary: st)
  case Nil
  then show ?case
    by simp
next
  case (Cons i schedule)
  let ?st' = "pool_step re_sub cl rag_prompt workers dir output_dir rules fs i st"
  have k: "k < length (fst ?st')"
    using Cons.prems(1) by (simp add: pool_step_length)
  have ex: "files (snd ?st') (output_path_of (path_join dir (fs ! k)) output_dir) \<noteq> None"
    using Cons.prems(2) by (rule pool_step_files_mono)
  have w: "fst ?st' ! k = Pending \<or> fst ?st' ! k = Done Skipped"
    using Cons.prems by (rule pool_step_waiting)
  from Cons.IH [OF k ex w] show ?case
    by simp
qed

lemma outputs_written_start: "outputs_written dir output_dir fs (replicate n Pending, w)"
  by (simp add: outputs_written_iff)

lemma run_pool_append:
  "run_pool re_sub cl rag_prompt workers dir output_dir rules fs (schedule @ later) w =
     fold (pool_step re_sub cl rag_prompt workers dir output_dir rules fs) later
       (run_pool re_sub cl rag_prompt workers dir output_dir rules fs schedule w)"
  by (simp add: run_pool_def)

lemma run_pool_length:
  "length (fst (run_pool re_sub cl rag_prompt workers dir output_dir rules fs schedule w)) = length fs"
  by (simp add: run_pool_def pool_run_length)

lemma run_pool_succeeded_written:
  assumes "i < length fs"
    and "fst (run_pool re_sub cl rag_prompt workers dir output_dir rules fs schedule w) ! i
           = Done Succeeded"
  shows "files (snd (run_pool re_sub cl rag_prompt workers dir output_dir rules fs schedule w))
           (output_path_of (path_join dir (fs ! i)) output_dir) \<noteq> None"
proof -
  have "outputs_written dir output_dir fs
          (run_pool re_sub cl rag_prompt workers dir output_dir rules fs schedule w)"
    unfolding run_pool_def by (rule pool_run_outputs_written) (rule outputs_written_start)
  with assms show ?thesis
    by (simp add: outputs_written_iff run_pool_length)
qed

lemma run_pool_late_job_skipped:
  assumes i: "i < length fs" and j: "j < length fs"
    and same: "output_path_of (path_join dir (fs ! j)) output_dir
                 = output_path_of (path_join dir (fs ! i)) output_dir"
    and fin: "fst (run_pool re_sub cl rag_prompt workers dir output_dir rules fs schedule w) ! i
                 = Done Succeeded"
    and waiting: "fst (run_pool re_sub cl rag_prompt workers dir output_dir rules fs schedule w) ! j
                 = Pending"
  shows "fst (run_pool re_sub cl rag_prompt workers dir output_dir rules fs (schedule @ later) w) ! j
           = Pending
         \<or> fst (run_pool re_sub cl rag_prompt workers dir output_dir rules fs (schedule @ later) w) ! j
           = Done Skipped"
proof -
  let ?st = "run_pool re_sub cl rag_prompt workers dir output_dir rules fs schedule w"
  have k: "j < length (fst ?st)"
    using j by (simp add: run_pool_length)
  have ex: "files (snd ?st) (output_path_of (path_join dir (fs ! j)) output_dir) \<noteq> None"
    using run_pool_succeeded_written [OF i fin] by (simp add: same)
  have w: "fst ?st ! j = Pending \<or> fst ?st ! j = Done Skipped"
    using waiting by simp
  from pool_run_waiting [OF k ex w] show ?thesis
    by (simp only: run_pool_append)
qed

lemma list_all_update: "list_all P xs \<Longrightarrow> P x \<Longrightarrow> list_all P (xs[i := x])"
proof -
  assume a: "list_all P xs" and x: "P x"
  have "set (xs[i := x]) \<subseteq> insert x (set xs)"
    by (rule set_update_subset_insert)
  with a x show ?thesis
    by (auto simp: list_all_iff)
qed

lemma pool_step_idle:
  assumes len: "length (fst st) = length fs"
    and ex: "list_all (\<lambda>f. files (snd st) (output_path_of (path_join dir f) output_dir) \<noteq> None) fs"
    and idle: "list_all (\<lambda>j. j = Pending \<or> j = Done Skipped) (fst st)"
  shows "snd (pool_step re_sub cl rag_prompt workers dir output_dir rules fs i st) = snd st
         \<and> list_all (\<lambda>j. j = Pending \<or> j = Done Skipped)
              (fst (pool_step re_sub cl rag_prompt workers dir output_dir rules fs i st))"
proof (cases "may_step workers (fst st) i")
  case False
  with idle show ?thesis
    by (simp add: pool_step_def)
next
  case True
  then have i: "i < length (fst st)"
    by (simp add: may_step_def)
  with idle have "fst st ! i = Pending \<or> fst st ! i = Done Skipped"
    by (simp add: list_all_length)
  with True have p: "fst st ! i = Pending"
    by (auto simp: may_step_def)
  from i len ex have e: "files (snd st) (output_path_of (path_join dir (fs ! i)) output_dir) \<noteq> None"
    by (simp add: list_all_length)
  have eq: "pool_step re_sub cl rag_prompt workers dir output_dir rules fs i st =
            ((fst st)[i := Done Skipped], snd st)"
    using True p e by (simp add: pool_step_def job_step_Pending)
  from idle have "list_all (\<lambda>j. j = Pending \<or> j = Done Skipped) ((fst st)[i := Done Skipped])"
    by (rule list_all_update) simp
  then show ?thesis
    by (simp add: eq)
qed

lemma pool_run_idle:
  "length (fst st) = length fs \<Longrightarrow>
   list_all (\<lambda>f. files (snd st) (output_path_of (path_join dir f) output_dir) \<noteq> None) fs \<Longrightarrow>
   list_all (\<lambda>j. j = Pending \<or> j = Done Skipped) (fst st) \<Longrightarrow>
     snd (fold (pool_step re_sub cl rag_prompt workers dir output_dir rules fs) schedule st) = snd st
     \<and> list_all (\<lambda>j. j = Pending \<or> j = Done Skipped)
          (fst (fold (pool_step re_sub cl rag_prompt workers dir output_dir rules fs) schedule st))"
proof (induction schedule arbitrary: st)
  case Nil
  then show ?case
    by simp
next
  case (Cons i schedule)
  let ?st' = "pool_step re_sub cl rag_prompt workers dir output_dir rules fs i st"
  note s = pool_step_idle [OF Cons.prems, of re_sub cl rag_prompt workers rules i]
  have len: "length (fst ?st') = length fs"
    using Cons.prems(1) by (simp add: pool_step_length)
  have ex: "list_all (\<lambda>f. files (snd ?st') (output_path_of (path_join dir f) output_dir) \<noteq> None) fs"
    using s Cons.prems(2) by simp
  have idle: "list_all (\<lambda>j. j = Pending \<or> j = Done Skipped) (fst ?st')"
    using s by simp
  from Cons.IH [OF len ex idle] s show ?case
    by simp
qed

lemma run_pool_all_skipped:
  assumes "list_all (\<lambda>f. files w (output_path_of (path_join dir f) output_dir) \<noteq> None) fs"
  shows "snd (run_pool re_sub cl rag_prompt workers dir output_dir rules fs schedule w) = w"
    and "list_all (\<lambda>j. j = Pending \<or> j = Done Skipped)
           (fst (run_pool re_sub cl rag_prompt workers dir output_dir rules fs schedule w))"
proof -
  have len: "length (fst (replicate (length fs) Pending, w)) = length fs"
    by simp
  have ex: "list_all (\<lambda>f. files (snd (replicate (length fs) Pending, w))
                             (output_path_of (path_join dir f) output_dir) \<noteq> None) fs"
    using assms by simp
  have idle: "list_all (\<lambda>j. j = Pending \<or> j = Done Skipped)
                (fst (replicate (length fs) Pending, w))"
    by (simp add: list_all_length)
  note r = pool_run_idle [OF len ex idle, of re_sub cl rag_prompt workers rules schedule]
  from r show "snd (run_pool re_sub cl rag_prompt workers dir output_dir rules fs schedule w) = w"
    by (simp add: run_pool_def)
  from r show "list_all (\<lambda>j. j = Pending \<or> j = Done Skipped)
           (fst (run_pool re_sub cl rag_prompt workers dir output_dir rules fs schedule w))"
    by (simp add: run_pool_def)
qed

lemma pool_step_front:
  assumes w: "0 < workers"
  shows "pool_step re_sub cl rag_prompt workers dir output_dir rules fs (length rs)
           (map Done rs @ j # replicate m Pending, w) =
         (map Done rs @ fst (job_step re_sub cl rag_prompt (path_join dir (fs ! length rs))
                               output_dir rules j w) # replicate m Pending,
          snd (job_step re_sub cl rag_prompt (path_join dir (fs ! length rs)) output_dir rules j w))"
proof -
  let ?jobs = "map Done rs @ j # replicate m Pending"
  have n: "(map Done rs @ y # replicate m Pending) ! length rs = y" for y :: job
    using nth_append_length [of "map Done rs" y "replicate m Pending"] by simp
  have u: "(map Done rs @ y # replicate m Pending)[length rs := x] =
           map Done rs @ x # replicate m Pending" for x y :: job
    using list_update_length [of "map Done rs" y "replicate m Pending" x] by simp
  show ?thesis
  proof (cases j)
    case (Done r)
    then have "\<not> may_step workers ?jobs (length rs)"
      by (simp add: may_step_def n)
    with Done show ?thesis
      by (simp add: pool_step_def job_step_Done)
  next
    case Pending
    have t: "take (length rs) (map Done rs @ y # replicate m Pending) = map Done rs" for y :: job
      by simp
    have "Pending \<notin> set (map Done rs)"
      by auto
    moreover have "filter is_running ?jobs = []"
      using Pending by (simp add: filter_empty_conv)
    ultimately have "may_step workers ?jobs (length rs)"
      using w Pending by (simp add: may_step_def n t del: take_append)
    then show ?thesis
      by (simp add: pool_step_def n u split: prod.split)
  next
    case Started
    then have "may_step workers ?jobs (length rs)"
      by (simp add: may_step_def n)
    then show ?thesis
      by (simp add: pool_step_def n u split: prod.split)
  next
    case (Loaded content)
    then have "may_step workers ?jobs (length rs)"
      by (simp add: may_step_def n)
    then show ?thesis
      by (simp add: pool_step_def n u split: prod.split)
  next
    case (Generated optimized_text content)
    then have "may_step workers ?jobs (length rs)"
      by (simp add: may_step_def n)
    then show ?thesis
      by (simp add: pool_step_def n u split: prod.split)
  qed
qed

lemma pool_run_front:
  assumes w: "0 < workers"
  shows "fold (pool_step re_sub cl rag_prompt workers dir output_dir rules fs)
           (replicate n (length rs)) (map Done rs @ j # replicate m Pending, w) =
         (map Done rs @ fst (job_run re_sub cl rag_prompt (path_join dir (fs ! length rs))
                               output_dir rules n j w) # replicate m Pending,
          snd (job_run re_sub cl rag_prompt (path_join dir (fs ! length rs)) output_dir rules n j w))"
proof (induction n arbitrary: j w)
  case 0
  show ?case
    by simp
next
  case (Suc n)
  let ?F = "pool_step re_sub cl rag_prompt workers dir output_dir rules fs"
  let ?p = "path_join dir (fs ! length rs)"
  obtain j1 w1 where s: "job_step re_sub cl rag_prompt ?p output_dir rules j w = (j1, w1)"
    by (cases "job_step re_sub cl rag_prompt ?p output_dir rules j w")
  have "fold ?F (replicate (Suc n) (length rs)) (map Done rs @ j # replicate m Pending, w) =
        fold ?F (replicate n (length rs))
          (?F (length rs) (map Done rs @ j # replicate m Pending, w))"
    by (simp only: replicate_Suc fold_simps comp_def)
  also have "\<dots> = fold ?F (replicate n (length rs)) (map Done rs @ j1 # replicate m Pending, w1)"
    by (simp only: pool_step_front [OF w] s fst_conv snd_conv)
  also have "\<dots> = (map Done rs @ fst (job_run re_sub cl rag_prompt ?p output_dir rules n j1 w1)
                          # replicate m Pending,
                     snd (job_run re_sub cl rag_prompt ?p output_dir rules n j1 w1))"
    by (rule Suc.IH)
  also have "job_run re_sub cl rag_prompt ?p output_dir rules n j1 w1 =
             job_run re_sub cl rag_prompt ?p output_dir rules (Suc n) j w"
    by (simp add: s)
  finally show ?case .
qed

lemma pool_run_one_by_one:
  assumes w: "0 < workers"
  shows "length rs = length fs0 \<Longrightarrow>
     fold (pool_step re_sub cl rag_prompt workers dir output_dir rules (fs0 @ fs1))
       (concat (map (replicate 4) [length fs0 ..< length fs0 + length fs1]))
       (map Done rs @ replicate (length fs1) Pending, w) =
     (map Done rs @ map Done (fst (run_jobs re_sub cl rag_prompt dir output_dir rules fs1 w)),
      snd (run_jobs re_sub cl rag_prompt dir output_dir rules fs1 w))"
proof (induction fs1 arbitrary: fs0 rs w)
  case Nil
  show ?case
    by simp
next
  case (Cons f fs1)
  obtain r w1 where pf: "process_file re_sub cl rag_prompt (path_join dir f) output_dir rules w = (r, w1)"
    by (cases "process_file re_sub cl rag_prompt (path_join dir f) output_dir rules w")
  have up: "[length fs0 ..< length fs0 + length (f # fs1)] =
            length fs0 # [length (fs0 @ [f]) ..< length (fs0 @ [f]) + length fs1]"
    by (subst upt_rec) simp
  have k: "(fs0 @ f # fs1) ! length rs = f"
    using Cons.prems by simp
  have first: "fold (pool_step re_sub cl rag_prompt workers dir output_dir rules (fs0 @ f # fs1))
                 (replicate 4 (length rs)) (map Done rs @ Pending # replicate (length fs1) Pending, w) =
               (map Done (rs @ [r]) @ replicate (length fs1) Pending, w1)"
    by (simp only: pool_run_front [OF w] k job_run_process_file pf fst_conv snd_conv) simp
  have len: "length (rs @ [r]) = length (fs0 @ [f])"
    using Cons.prems by simp
  note IH = Cons.IH [OF len, of w1]
  have rj: "run_jobs re_sub cl rag_prompt dir output_dir rules (f # fs1) w =
            (r # fst (run_jobs re_sub cl rag_prompt dir output_dir rules fs1 w1),
             snd (run_jobs re_sub cl rag_prompt dir output_dir rules fs1 w1))"
    by (simp add: pf split: prod.split)
  let ?F = "pool_step re_sub cl rag_prompt workers dir output_dir rules (fs0 @ f # fs1)"
  let ?rest = "[length (fs0 @ [f]) ..< length (fs0 @ [f]) + length fs1]"
  have st0: "map Done rs @ replicate (length (f # fs1)) Pending =
             map Done rs @ Pending # replicate (length fs1) Pending"
    by simp
  have fs: "fs0 @ f # fs1 = (fs0 @ [f]) @ fs1"
    by simp
  have split: "fold ?F (concat (map (replicate 4) (k # rest))) st =
               fold ?F (concat (map (replicate 4) rest)) (fold ?F (replicate 4 k) st)" for k rest st
    by simp
  have "fold ?F (concat (map (replicate 4) [length fs0 ..< length fs0 + length (f # fs1)]))
          (map Done rs @ replicate (length (f # fs1)) Pending, w) =
        fold ?F (concat (map (replicate 4) (length fs0 # ?rest)))
          (map Done rs @ Pending # replicate (length fs1) Pending, w)"
    by (simp only: up st0)
  also have "\<dots> = fold ?F (concat (map (replicate 4) ?rest))
                       (fold ?F (replicate 4 (length rs))
                          (map Done rs @ Pending # replicate (length fs1) Pending, w))"
    by (simp only: split Cons.prems)
  also have "\<dots> = fold ?F (concat (map (replicate 4) ?rest))
                       (map Done (rs @ [r]) @ replicate (length fs1) Pending, w1)"
    by (simp only: first)
  also have "\<dots> = (map Done (rs @ [r]) @
                       map Done (fst (run_jobs re_sub cl rag_prompt dir output_dir rules fs1 w1)),
                     snd (run_jobs re_sub cl rag_prompt dir output_dir rules fs1 w1))"
    unfolding fs by (rule IH)
  also have "\<dots> = (map Done rs @
                       map Done (fst (run_jobs re_sub cl rag_prompt dir output_dir rules (f # fs1) w)),
                     snd (run_jobs re_sub cl rag_prompt dir output_dir rules (f # fs1) w))"
    by (simp only: rj fst_conv snd_conv) simp
  finally show ?case .
qed

lemma run_pool_one_by_one:
  assumes "0 < workers"
  shows "run_pool re_sub cl rag_prompt workers dir output_dir rules fs (one_by_one (length fs)) w =
           (map Done (fst (run_jobs re_sub cl rag_prompt dir output_dir rules fs w)),
            snd (run_jobs re_sub cl rag_prompt dir output_dir rules fs w))"
  using pool_run_one_by_one [OF assms, of "[]" "[]" re_sub cl rag_prompt dir output_dir rules fs w]
  by (simp add: run_pool_def one_by_one_def)

text \<open>
  C10 as stated fails in the pool. \<open>X.srt\<close> and \<open>X.txt\<close> have the same output
  path. With three workers and the two jobs taking their steps in turn, both test the
  output path before either has written it: when the first has succeeded and its output
  is in place, the second already holds its generated text; it is not skipped, it writes
  the same path, and the file holds the output of the second job alone.
\<close>

theorem output_path_collision_race:
  "output_path_of (path_join ''in'' ''X.srt'') ''out'' = ''out/X_rag.txt''
   \<and> output_path_of (path_join ''in'' ''X.txt'') ''out'' = ''out/X_rag.txt''
   \<and> fst (run_pool no_regex echo_client prompt_example 3 ''in'' ''out'' foo_bar_baz
            [''X.srt'', ''X.txt''] [0, 1, 0, 1, 0, 1, 0] world_new)
       = [Done Succeeded, Generated ''# foo'' ''some text'']
   \<and> files (snd (run_pool no_regex echo_client prompt_example 3 ''in'' ''out'' foo_bar_baz
                   [''X.srt'', ''X.txt''] [0, 1, 0, 1, 0, 1, 0] world_new)) ''out/X_rag.txt''
       = Some (''# baz'' @ separator @ ''Hello world'')
   \<and> fst (run_pool no_regex echo_client prompt_example 3 ''in'' ''out'' foo_bar_baz
            [''X.srt'', ''X.txt''] [0, 1, 0, 1, 0, 1, 0, 1] world_new)
       = [Done Succeeded, Done Succeeded]
   \<and> filter is_write (trace (snd (run_pool no_regex echo_client prompt_example 3 ''in'' ''out''
            foo_bar_baz [''X.srt'', ''X.txt''] [0, 1, 0, 1, 0, 1, 0, 1] world_new)))
       = [Write ''out/X_rag.txt'', Write ''out/X_rag.txt'']
   \<and> files (snd (run_pool no_regex echo_client prompt_example 3 ''in'' ''out'' foo_bar_baz
                   [''X.srt'', ''X.txt''] [0, 1, 0, 1, 0, 1, 0, 1] world_new)) ''out/X_rag.txt''
       = Some (''# baz'' @ separator @ ''some text'')"
proof -
  have o1: "output_path_of (path_join ''in'' ''X.srt'') ''out'' = ''out/X_rag.txt''"
    by code_simp
  have o2: "output_path_of (path_join ''in'' ''X.txt'') ''out'' = ''out/X_rag.txt''"
    by code_simp
  have a: "fst (run_pool no_regex echo_client prompt_example 3 ''in'' ''out'' foo_bar_baz
            [''X.srt'', ''X.txt''] [0, 1, 0, 1, 0, 1, 0] world_new)
       = [Done Succeeded, Generated ''# foo'' ''some text'']"
    by code_simp
  have b: "files (snd (run_pool no_regex echo_client prompt_example 3 ''in'' ''out'' foo_bar_baz
                   [''X.srt'', ''X.txt''] [0, 1, 0, 1, 0, 1, 0] world_new)) ''out/X_rag.txt''
       = Some (''# baz'' @ separator @ ''Hello world'')"
    by code_simp
  have c: "fst (run_pool no_regex echo_client prompt_example 3 ''in'' ''out'' foo_bar_baz
            [''X.srt'', ''X.txt''] [0, 1, 0, 1, 0, 1, 0, 1] world_new)
       = [Done Succeeded, Done Succeeded]"
    by code_simp
  have d: "filter is_write (trace (snd (run_pool no_regex echo_client prompt_example 3 ''in'' ''out''
            foo_bar_baz [''X.srt'', ''X.txt''] [0, 1, 0, 1, 0, 1, 0, 1] world_new)))
       = [Write ''out/X_rag.txt'', Write ''out/X_rag.txt'']"
    by code_simp
  have e: "files (snd (run_pool no_regex echo_client prompt_example 3 ''in'' ''out'' foo_bar_baz
                   [''X.srt'', ''X.txt''] [0, 1, 0, 1, 0, 1, 0, 1] world_new)) ''out/X_rag.txt''
       = Some (''# baz'' @ separator @ ''some text'')"
    by code_simp
  from o1 o2 a b c d e show ?thesis
    by (simp only: simp_thms)
qed

text \<open>
  C10 amended. For a name made of a stem without a slash and with a character other than
  a dot, a dot, and an extension without dot or slash, the output path is the output
  directory joined with the stem followed by \<open>_rag.txt\<close>; so two names of one
  directory with the same stem and different extensions have the same output path. A job
  of such a pair that tests the output path when the output of the other is in place is
  skipped and changes nothing: in every run of the pool, under every schedule and with any
  number of workers, once one job of the pair has succeeded while the other is still
  waiting, the other stays waiting or is skipped however the run goes on; and when the jobs
  run one after the other and the first succeeds, the second is skipped.
\<close>

theorem output_path_collision:
  "CHR ''/'' \<notin> set stem \<and> list_ex (\<lambda>c. c \<noteq> CHR ''.'') stem
   \<and> CHR ''.'' \<notin> set ext1 \<and> CHR ''/'' \<notin> set ext1
   \<and> CHR ''.'' \<notin> set ext2 \<and> CHR ''/'' \<notin> set ext2 \<longrightarrow>
     output_path_of (path_join dir (stem @ CHR ''.'' # ext1)) output_dir
       = path_join output_dir (stem @ ''_rag.txt'')
     \<and> output_path_of (path_join dir (stem @ CHR ''.'' # ext2)) output_dir
       = output_path_of (path_join dir (stem @ CHR ''.'' # ext1)) output_dir
     \<and> (files w0 (output_path_of (path_join dir (stem @ CHR ''.'' # ext1)) output_dir) \<noteq> None \<longrightarrow>
          job_step re_sub cl rag_prompt (path_join dir (stem @ CHR ''.'' # ext2)) output_dir rules
            Pending w0 = (Done Skipped, w0))
     \<and> (i < length fs \<and> j < length fs
          \<and> fs ! i = stem @ CHR ''.'' # ext1 \<and> fs ! j = stem @ CHR ''.'' # ext2
          \<and> fst (run_pool re_sub cl rag_prompt workers dir output_dir rules fs schedule w) ! i
               = Done Succeeded
          \<and> fst (run_pool re_sub cl rag_prompt workers dir output_dir rules fs schedule w) ! j
               = Pending \<longrightarrow>
          fst (run_pool re_sub cl rag_prompt workers dir output_dir rules fs (schedule @ later) w) ! j
            = Pending
          \<or> fst (run_pool re_sub cl rag_prompt workers dir output_dir rules fs (schedule @ later) w) ! j
            = Done Skipped)
     \<and> (fst (process_file re_sub cl rag_prompt (path_join dir (stem @ CHR ''.'' # ext1))
               output_dir rules w) = Succeeded \<longrightarrow>
        process_file re_sub' cl' rag_prompt' (path_join dir (stem @ CHR ''.'' # ext2)) output_dir rules'
          (snd (process_file re_sub cl rag_prompt (path_join dir (stem @ CHR ''.'' # ext1))
                 output_dir rules w))
        = (Skipped, snd (process_file re_sub cl rag_prompt (path_join dir (stem @ CHR ''.'' # ext1))
                 output_dir rules w)))"
proof (intro impI)
  assume a: "CHR ''/'' \<notin> set stem \<and> list_ex (\<lambda>c. c \<noteq> CHR ''.'') stem
   \<and> CHR ''.'' \<notin> set ext1 \<and> CHR ''/'' \<notin> set ext1
   \<and> CHR ''.'' \<notin> set ext2 \<and> CHR ''/'' \<notin> set ext2"
  then have s: "CHR ''/'' \<notin> set stem" "list_ex (\<lambda>c. c \<noteq> CHR ''.'') stem"
    and e1: "CHR ''.'' \<notin> set ext1" "CHR ''/'' \<notin> set ext1"
    and e2: "CHR ''.'' \<notin> set ext2" "CHR ''/'' \<notin> set ext2"
    by blast+
  let ?p1 = "path_join dir (stem @ CHR ''.'' # ext1)"
  let ?p2 = "path_join dir (stem @ CHR ''.'' # ext2)"
  have o1: "output_path_of ?p1 output_dir = path_join output_dir (stem @ ''_rag.txt'')"
    by (rule output_path_of_stem [OF s e1])
  have o2: "output_path_of ?p2 output_dir = path_join output_dir (stem @ ''_rag.txt'')"
    by (rule output_path_of_stem [OF s e2])
  have same: "output_path_of ?p2 output_dir = output_path_of ?p1 output_dir"
    by (simp only: o1 o2)
  have st: "job_step re_sub cl rag_prompt ?p2 output_dir rules Pending w0 = (Done Skipped, w0)"
    if "files w0 (output_path_of ?p1 output_dir) \<noteq> None"
    using that by (simp add: job_step_Pending same)
  have pool: "fst (run_pool re_sub cl rag_prompt workers dir output_dir rules fs (schedule @ later) w) ! j
            = Pending
          \<or> fst (run_pool re_sub cl rag_prompt workers dir output_dir rules fs (schedule @ later) w) ! j
            = Done Skipped"
    if h: "i < length fs \<and> j < length fs
          \<and> fs ! i = stem @ CHR ''.'' # ext1 \<and> fs ! j = stem @ CHR ''.'' # ext2
          \<and> fst (run_pool re_sub cl rag_prompt workers dir output_dir rules fs schedule w) ! i
               = Done Succeeded
          \<and> fst (run_pool re_sub cl rag_prompt workers dir output_dir rules fs schedule w) ! j
               = Pending"
  proof -
    from h have i: "i < length fs" and j: "j < length fs"
      and fi: "fs ! i = stem @ CHR ''.'' # ext1" and fj: "fs ! j = stem @ CHR ''.'' # ext2"
      and d: "fst (run_pool re_sub cl rag_prompt workers dir output_dir rules fs schedule w) ! i
               = Done Succeeded"
      and p: "fst (run_pool re_sub cl rag_prompt workers dir output_dir rules fs schedule w) ! j
               = Pending"
      by blast+
    have sm: "output_path_of (path_join dir (fs ! j)) output_dir
                = output_path_of (path_join dir (fs ! i)) output_dir"
      by (simp only: fi fj same)
    show ?thesis
      by (rule run_pool_late_job_skipped [OF i j sm d p])
  qed
  have sk: "process_file re_sub' cl' rag_prompt' ?p2 output_dir rules'
              (snd (process_file re_sub cl rag_prompt ?p1 output_dir rules w))
            = (Skipped, snd (process_file re_sub cl rag_prompt ?p1 output_dir rules w))"
    if ok: "fst (process_file re_sub cl rag_prompt ?p1 output_dir rules w) = Succeeded"
  proof -
    from process_file_succeeded_exists [OF ok]
    have "files (snd (process_file re_sub cl rag_prompt ?p1 output_dir rules w))
            (output_path_of ?p2 output_dir) \<noteq> None"
      by (simp add: o1 o2)
    then show ?thesis
      by (rule process_file_skip)
  qed
  from o1 same st pool sk
  show "output_path_of ?p1 output_dir = path_join output_dir (stem @ ''_rag.txt'')
     \<and> output_path_of ?p2 output_dir = output_path_of ?p1 output_dir
     \<and> (files w0 (output_path_of ?p1 output_dir) \<noteq> None \<longrightarrow>
          job_step re_sub cl rag_prompt ?p2 output_dir rules Pending w0 = (Done Skipped, w0))
     \<and> (i < length fs \<and> j < length fs
          \<and> fs ! i = stem @ CHR ''.'' # ext1 \<and> fs ! j = stem @ CHR ''.'' # ext2
          \<and> fst (run_pool re_sub cl rag_prompt workers dir output_dir rules fs schedule w) ! i
               = Done Succeeded
          \<and> fst (run_pool re_sub cl rag_prompt workers dir output_dir rules fs schedule w) ! j
               = Pending \<longrightarrow>
          fst (run_pool re_sub cl rag_prompt workers dir output_dir rules fs (schedule @ later) w) ! j
            = Pending
          \<or> fst (run_pool re_sub cl rag_prompt workers dir output_dir rules fs (schedule @ later) w) ! j
            = Done Skipped)
     \<and> (fst (process_file re_sub cl rag_prompt ?p1 output_dir rules w) = Succeeded \<longrightarrow>
        process_file re_sub' cl' rag_prompt' ?p2 output_dir rules'
          (snd (process_file re_sub cl rag_prompt ?p1 output_dir rules w))
        = (Skipped, snd (process_file re_sub cl rag_prompt ?p1 output_dir rules w)))"
    by blast
qed

theorem output_path_collision_witness:
  "output_path_of (path_join ''in'' ''X.srt'') ''out'' = path_join ''out'' ''X_rag.txt''
   \<and> output_path_of (path_join ''in'' ''X.txt'') ''out''
       = output_path_of (path_join ''in'' ''X.srt'') ''out''
   \<and> files world_done (output_path_of (path_join ''in'' ''X.srt'') ''out'') = Some ''done''
   \<and> job_step no_regex echo_client prompt_example (path_join ''in'' ''X.txt'') ''out'' foo_bar_baz
         Pending world_done = (Done Skipped, world_done)
   \<and> fst (run_pool no_regex echo_client prompt_example 3 ''in'' ''out'' foo_bar_baz
            [''X.srt'', ''X.txt''] [0, 0, 0, 0] world_new) = [Done Succeeded, Pending]
   \<and> (fst (run_pool no_regex echo_client prompt_example 3 ''in'' ''out'' foo_bar_baz
            [''X.srt'', ''X.txt''] ([0, 0, 0, 0] @ [1, 1]) world_new) ! 1 = Pending
        \<or> fst (run_pool no_regex echo_client prompt_example 3 ''in'' ''out'' foo_bar_baz
            [''X.srt'', ''X.txt''] ([0, 0, 0, 0] @ [1, 1]) world_new) ! 1 = Done Skipped)
   \<and> fst (run_pool no_regex echo_client prompt_example 3 ''in'' ''out'' foo_bar_baz
            [''X.srt'', ''X.txt''] [0, 0, 0, 0, 1, 1] world_new) = [Done Succeeded, Done Skipped]
   \<and> fst (process_file no_regex echo_client prompt_example (path_join ''in'' ''X.srt'') ''out''
            foo_bar_baz world_new) = Succeeded
   \<and> fst (process_file no_regex always_429 prompt_example (path_join ''in'' ''X.txt'') ''out'' []
        (snd (process_file no_regex echo_client prompt_example (path_join ''in'' ''X.srt'') ''out''
               foo_bar_baz world_new))) = Skipped"
proof -
  have h: "CHR ''/'' \<notin> set ''X'' \<and> list_ex (\<lambda>c. c \<noteq> CHR ''.'') ''X''
   \<and> CHR ''.'' \<notin> set ''srt'' \<and> CHR ''/'' \<notin> set ''srt''
   \<and> CHR ''.'' \<notin> set ''txt'' \<and> CHR ''/'' \<notin> set ''txt''"
    by simp
  note T = output_path_collision [where stem = "''X''" and ?ext1.0 = "''srt''" and ?ext2.0 = "''txt''"
      and dir = "''in''" and output_dir = "''out''" and ?w0.0 = world_done and w = world_new
      and re_sub = no_regex and cl = echo_client and rag_prompt = prompt_example
      and rules = foo_bar_baz and i = 0 and j = 1 and fs = "[''X.srt'', ''X.txt'']"
      and workers = 3 and schedule = "[0, 0, 0, 0]" and later = "[1, 1]"
      and re_sub' = no_regex and cl' = always_429 and rag_prompt' = prompt_example
      and rules' = "[]"]
  from T h have o1: "output_path_of (path_join ''in'' ''X.srt'') ''out'' = path_join ''out'' ''X_rag.txt''"
    and o2: "output_path_of (path_join ''in'' ''X.txt'') ''out''
               = output_path_of (path_join ''in'' ''X.srt'') ''out''"
    by simp_all
  have pj: "path_join ''out'' ''X_rag.txt'' = ''out/X_rag.txt''"
    by code_simp
  have ex: "files world_done (output_path_of (path_join ''in'' ''X.srt'') ''out'') = Some ''done''"
    by (simp add: o1 pj world_done_def)
  from T h ex
  have st: "job_step no_regex echo_client prompt_example (path_join ''in'' ''X.txt'') ''out''
              foo_bar_baz Pending world_done = (Done Skipped, world_done)"
    by simp
  have r4: "fst (run_pool no_regex echo_client prompt_example 3 ''in'' ''out'' foo_bar_baz
            [''X.srt'', ''X.txt''] [0, 0, 0, 0] world_new) = [Done Succeeded, Pending]"
    by code_simp
  from T h r4
  have late: "fst (run_pool no_regex echo_client prompt_example 3 ''in'' ''out'' foo_bar_baz
            [''X.srt'', ''X.txt''] ([0, 0, 0, 0] @ [1, 1]) world_new) ! 1 = Pending
        \<or> fst (run_pool no_regex echo_client prompt_example 3 ''in'' ''out'' foo_bar_baz
            [''X.srt'', ''X.txt''] ([0, 0, 0, 0] @ [1, 1]) world_new) ! 1 = Done Skipped"
    by simp
  have r6: "fst (run_pool no_regex echo_client prompt_example 3 ''in'' ''out'' foo_bar_baz
            [''X.srt'', ''X.txt''] [0, 0, 0, 0, 1, 1] world_new) = [Done Succeeded, Done Skipped]"
    by code_simp
  have ok: "fst (process_file no_regex echo_client prompt_example (path_join ''in'' ''X.srt'') ''out''
            foo_bar_baz world_new) = Succeeded"
    by code_simp
  from T h ok
  have sk: "fst (process_file no_regex always_429 prompt_example (path_join ''in'' ''X.txt'') ''out'' []
        (snd (process_file no_regex echo_client prompt_example (path_join ''in'' ''X.srt'') ''out''
               foo_bar_baz world_new))) = Skipped"
    by simp
  from o1 o2 ex st r4 late r6 ok sk show ?thesis
    by blast
qed

end
